theory Spec2Isabelle
  imports Main "HOL-Library.Word"
begin

unbundle bit_operations_syntax

section \<open>Data model of \<^verbatim>\<open>xmod.c\<close>\<close>

type_synonym u8 = "8 word"
type_synonym u16 = "16 word"

text \<open>The compiled-in constants (lines 59-67 and 92).\<close>

definition MAXRETRY :: int where "MAXRETRY = 15"
definition TIMEOUT_MS :: u16 where "TIMEOUT_MS = 1000"

definition X_SOH :: u8 where "X_SOH = 1"
definition X_EOT :: u8 where "X_EOT = 4"
definition X_ACK :: u8 where "X_ACK = 6"
definition X_NAK :: u8 where "X_NAK = 21"
definition X_ETB :: u8 where "X_ETB = 23"
definition X_CAN :: u8 where "X_CAN = 24"

definition POLY :: u16 where "POLY = 0x1021"

text \<open>The enum \<^verbatim>\<open>STATE\<close> (lines 69-78).\<close>

datatype STATE =
  TRANS_AWAIT | TRANS_RUN | TRANS_ABORT | TRANS_BLOCK | TRANS_BLOCK2 |
  TRANS_CRC1 | TRANS_CRC2 | TRANS_END

section \<open>The CRC engine\<close>

text \<open>
  One round of the loop body of \<^verbatim>\<open>xmod_crc_update\<close> (lines 98-101): the test
  \<^verbatim>\<open>CRC_acc & 0x8000\<close> is taken before the shift.
\<close>

definition crc_round :: "u16 \<Rightarrow> u16" where
  "crc_round CRC_acc =
     (if CRC_acc AND 0x8000 \<noteq> 0 then push_bit 1 CRC_acc XOR POLY
      else push_bit 1 CRC_acc)"

text \<open>The loop \<^verbatim>\<open>for (uint8_t i = 0; i < 8; i++)\<close>, with its 8-bit counter.\<close>

function crc_loop :: "u8 \<Rightarrow> u16 \<Rightarrow> u16" where
  "crc_loop i CRC_acc =
     (if i < 8 then crc_loop (i + 1) (crc_round CRC_acc) else CRC_acc)"
  by pat_completeness auto
termination
proof (relation "measure (\<lambda>(i, _). 8 - unat i)")
  show "wf (measure (\<lambda>(i :: u8, _ :: u16). 8 - unat i))" by simp
next
  fix i :: u8 and CRC_acc :: u16
  assume "i < 8"
  then have "unat i < 8" by (simp add: word_less_nat_alt)
  moreover from this have "unat (i + 1) = unat i + 1"
    by (simp add: unat_word_ariths)
  ultimately show "((i + 1, crc_round CRC_acc), (i, CRC_acc)) \<in> measure (\<lambda>(i, _). 8 - unat i)"
    by simp
qed

definition xmod_crc_update :: "u16 \<Rightarrow> u8 \<Rightarrow> u16" where
  "xmod_crc_update CRC_acc CRC_input =
     crc_loop 0 (CRC_acc XOR push_bit 8 (ucast CRC_input))"

section \<open>The transfer session\<close>

text \<open>
  The file-scope variables of lines 80-90 and the caller's \<^verbatim>\<open>buffer\<close> (line 50) as one
  record. \<^verbatim>\<open>int\<close> variables are integers: \<^verbatim>\<open>retrycount\<close> is only incremented while
  it is at most 15 and \<^verbatim>\<open>counter\<close> is reset at every start-of-block, so neither
  reaches the range of a machine \<^verbatim>\<open>int\<close>. The array \<^verbatim>\<open>buffer\<close> is a list whose length
  is \<^verbatim>\<open>XMOD_BUFFSIZE\<close>; \<open>uart_tx\<close> is the sequence of bytes handed to \<^verbatim>\<open>uart_putc\<close>,
  oldest first.
\<close>

record sess =
  state :: STATE
  retrycount :: int
  counter :: int
  current_crc :: u16
  crc_recv :: u16
  mempos :: u16
  blocknum :: u8
  last_succeeded_block :: u8
  buffer :: "u8 list"
  uart_tx :: "u8 list"

definition XMOD_BUFFSIZE :: "sess \<Rightarrow> nat" where
  "XMOD_BUFFSIZE s = length (buffer s)"

text \<open>
  An access to \<^verbatim>\<open>buffer\<close> at an index that is not below \<^verbatim>\<open>XMOD_BUFFSIZE\<close> is outside
  the array; the model stops there and reports the index.
\<close>

datatype fault = OutOfBounds nat

definition uart_putc :: "u8 \<Rightarrow> sess \<Rightarrow> sess" where
  "uart_putc c s = s\<lparr>uart_tx := uart_tx s @ [c]\<rparr>"

section \<open>The receive state machine\<close>

text \<open>
  \<^verbatim>\<open>handlebyte\<close> (lines 127-185), branch by branch in the order of the source. It reads
  the file-scope \<^verbatim>\<open>state\<close> and returns the next one; the caller stores it. The argument
  is a \<^verbatim>\<open>char\<close>: every use converts it to \<^verbatim>\<open>uint8_t\<close> or compares it with a code below
  128, so it is modelled by its 8-bit pattern.
\<close>

definition handlebyte :: "u8 \<Rightarrow> sess \<Rightarrow> fault + (STATE \<times> sess)" where
  "handlebyte d s =
    (if state s = TRANS_AWAIT \<and> d = X_SOH then
       Inr (TRANS_BLOCK, s\<lparr>counter := 0, current_crc := 0\<rparr>)
     else if state s = TRANS_BLOCK then
       Inr (TRANS_BLOCK2, s\<lparr>blocknum := d\<rparr>)
     else if state s = TRANS_BLOCK2 then
       (if uint (blocknum s) \<noteq> 0xFF - uint d then Inr (TRANS_ABORT, s)
        else if blocknum s = last_succeeded_block s then
          Inr (TRANS_RUN, s\<lparr>mempos := mempos s - 128\<rparr>)
        else Inr (TRANS_RUN, s))
     else if state s = TRANS_AWAIT \<and> d = X_EOT then
       Inr (TRANS_END, uart_putc X_ACK (uart_putc X_ACK s))
     else if state s = TRANS_AWAIT \<and> d = X_ETB then
       Inr (TRANS_END, uart_putc X_ACK s)
     else if state s = TRANS_AWAIT then
       Inr (TRANS_ABORT, s)
     else if state s = TRANS_RUN then
       (let s1 = s\<lparr>counter := counter s + 1,
                    current_crc := xmod_crc_update (current_crc s) d\<rparr>
        in if unat (mempos s1) < XMOD_BUFFSIZE s1 then
             (let s2 = s1\<lparr>buffer := (buffer s1)[unat (mempos s1) := d],
                          mempos := mempos s1 + 1\<rparr>
              in if counter s2 = 128 then Inr (TRANS_CRC1, s2) else Inr (TRANS_RUN, s2))
           else Inl (OutOfBounds (unat (mempos s1))))
     else if state s = TRANS_CRC1 then
       Inr (TRANS_CRC2, s\<lparr>crc_recv := push_bit 8 (ucast d)\<rparr>)
     else if state s = TRANS_CRC2 then
       (let s1 = s\<lparr>crc_recv := crc_recv s OR ucast d\<rparr>
        in if crc_recv s1 = current_crc s1 then
             Inr (TRANS_AWAIT, (uart_putc X_ACK s1)\<lparr>last_succeeded_block := blocknum s1\<rparr>)
           else
             Inr (TRANS_AWAIT, (uart_putc X_NAK s1)\<lparr>mempos := mempos s1 - 128\<rparr>))
     else Inr (TRANS_RUN, s))"

section \<open>The transmit driver\<close>

text \<open>
  The loop \<^verbatim>\<open>for (uint8_t p = 0; p < 128; p++)\<close> of \<^verbatim>\<open>xmod_sendblock\<close> (lines
  117-121). The index \<^verbatim>\<open>p + offset\<close> stays below \<open>2 ^ 16\<close> whenever \<open>offset\<close> is a
  multiple of 128, which it is.
\<close>

function sendblock_loop :: "u8 \<Rightarrow> u16 \<Rightarrow> sess \<Rightarrow> fault + sess" where
  "sendblock_loop p offset s =
     (if p < 128 then
        (if unat p + unat offset < XMOD_BUFFSIZE s then
           (let byte = buffer s ! (unat p + unat offset);
                s1 = s\<lparr>current_crc := xmod_crc_update (current_crc s) byte\<rparr>
            in sendblock_loop (p + 1) offset (uart_putc byte s1))
         else Inl (OutOfBounds (unat p + unat offset)))
      else Inr s)"
  by pat_completeness auto
termination
proof (relation "measure (\<lambda>(p, _, _). 128 - unat p)", goal_cases)
  case 1
  show ?case by simp
next
  case (2 p offset s byte s1)
  from \<open>p < 128\<close> have "unat p < 128" by (simp add: word_less_nat_alt)
  moreover from this have "unat (p + 1) = unat p + 1"
    by (simp add: unat_word_ariths)
  ultimately show ?case by simp
qed

text \<open>
  \<^verbatim>\<open>xmod_sendblock\<close> (lines 106-125). The function is declared to return a \<^verbatim>\<open>STATE\<close>
  and has no \<^verbatim>\<open>return\<close> statement: what a caller reads as its result is not fixed by
  the program, so it is the parameter \<open>r\<close> of the model. \<^verbatim>\<open>128*(blocknum-1)\<close> is
  computed in \<^verbatim>\<open>int\<close> and converted to \<^verbatim>\<open>uint16_t\<close>.
\<close>

definition xmod_sendblock :: "STATE \<Rightarrow> sess \<Rightarrow> fault + (STATE \<times> sess)" where
  "xmod_sendblock r s =
    (let s1 = uart_putc (0xFF - blocknum s) (uart_putc (blocknum s) (uart_putc X_SOH s));
         s2 = s1\<lparr>current_crc := 0\<rparr>;
         offset0 = (word_of_int (128 * (uint (blocknum s2) - 1)) :: u16);
         offset = (if unat offset0 \<ge> XMOD_BUFFSIZE s2 then 0 else offset0)
     in case sendblock_loop 0 offset s2 of
          Inl f \<Rightarrow> Inl f
        | Inr s3 \<Rightarrow>
            Inr (r, uart_putc (ucast (current_crc s3 AND 0xFF))
                     (uart_putc (ucast (drop_bit 8 (current_crc s3) AND 0xFF)) s3)))"

section \<open>The polling loops\<close>

text \<open>
  One iteration of a polling loop sees either silence (\<^verbatim>\<open>uart_available()\<close> is false,
  and \<^verbatim>\<open>GetMillis()\<close> returns the given value) or a byte (\<^verbatim>\<open>uart_available()\<close> is true
  and \<^verbatim>\<open>uart_getc()\<close> returns it). The environment is the list of what the successive
  iterations see.
\<close>

datatype event = Idle u16 | Rx u8

text \<open>The body of the \<^verbatim>\<open>do\<close> loop of \<^verbatim>\<open>xmod_download\<close> (lines 233-244).\<close>

definition download_body :: "event \<Rightarrow> sess \<Rightarrow> fault + sess" where
  "download_body e s =
    (case e of
       Idle ms \<Rightarrow>
         (if ms \<le> TIMEOUT_MS then Inr s
          else if retrycount s > MAXRETRY then Inr (s\<lparr>state := TRANS_ABORT\<rparr>)
          else Inr ((uart_putc 0x43 s)\<lparr>retrycount := retrycount s + 1\<rparr>))
     | Rx d \<Rightarrow>
         (case handlebyte d s of
            Inl f \<Rightarrow> Inl f
          | Inr (st, s') \<Rightarrow> Inr (s'\<lparr>state := st\<rparr>)))"

text \<open>
  The \<^verbatim>\<open>do ... while (state != TRANS_ABORT && state != TRANS_END)\<close> loop: the body runs
  once before the first test. When the environment list is used up the session is
  returned as it stands, its state telling whether the loop has ended.
\<close>

fun download_loop :: "event list \<Rightarrow> sess \<Rightarrow> fault + sess" where
  "download_loop [] s = Inr s"
| "download_loop (e # es) s =
     (case download_body e s of
        Inl f \<Rightarrow> Inl f
      | Inr s' \<Rightarrow>
          (if state s' \<noteq> TRANS_ABORT \<and> state s' \<noteq> TRANS_END then download_loop es s'
           else Inr s'))"

text \<open>
  \<^verbatim>\<open>xmod_download\<close> (lines 224-245). The final loop that reads and drops pending bytes
  changes no variable of the session and is left out.
\<close>

definition download_init :: "sess \<Rightarrow> sess" where
  "download_init s =
     (uart_putc 0x43 (s\<lparr>mempos := 0, retrycount := 0, last_succeeded_block := 0\<rparr>))
       \<lparr>state := TRANS_AWAIT\<rparr>"

definition xmod_download :: "event list \<Rightarrow> sess \<Rightarrow> fault + sess" where
  "xmod_download es s = download_loop es (download_init s)"

text \<open>
  The body of the \<^verbatim>\<open>do\<close> loop of \<^verbatim>\<open>xmod_upload\<close> (lines 195-220). \<open>r\<close> is what the
  iteration would read as the result of \<^verbatim>\<open>xmod_sendblock\<close>.
\<close>

definition upload_body :: "STATE \<Rightarrow> event \<Rightarrow> sess \<Rightarrow> fault + sess" where
  "upload_body r e s =
    (case e of
       Idle ms \<Rightarrow>
         (if ms \<le> TIMEOUT_MS then Inr s
          else if retrycount s > MAXRETRY then Inr (s\<lparr>state := TRANS_ABORT\<rparr>)
          else Inr (s\<lparr>retrycount := retrycount s + 1\<rparr>))
     | Rx d \<Rightarrow>
         (if d = 0x43 then
            (case xmod_sendblock r (s\<lparr>blocknum := 1\<rparr>) of
               Inl f \<Rightarrow> Inl f
             | Inr (st, s') \<Rightarrow> Inr (s'\<lparr>state := st\<rparr>))
          else
            (let s1 = (if d = X_ACK then s\<lparr>blocknum := blocknum s + 1\<rparr> else s)
             in if d = X_ACK \<and> unat (blocknum s1) = XMOD_BUFFSIZE s1 div 128 + 1 then
                  Inr ((uart_putc X_EOT s1)\<lparr>state := TRANS_END\<rparr>)
                else
                  (case xmod_sendblock r s1 of
                     Inl f \<Rightarrow> Inl f
                   | Inr (_, s') \<Rightarrow> Inr s'))))"

fun upload_loop :: "(STATE \<times> event) list \<Rightarrow> sess \<Rightarrow> fault + sess" where
  "upload_loop [] s = Inr s"
| "upload_loop ((r, e) # es) s =
     (case upload_body r e s of
        Inl f \<Rightarrow> Inl f
      | Inr s' \<Rightarrow>
          (if state s' \<noteq> TRANS_END \<and> state s' \<noteq> TRANS_ABORT then upload_loop es s'
           else Inr s'))"

definition upload_init :: "sess \<Rightarrow> sess" where
  "upload_init s = s\<lparr>state := TRANS_AWAIT, blocknum := 1, last_succeeded_block := 0\<rparr>"

definition xmod_upload :: "(STATE \<times> event) list \<Rightarrow> sess \<Rightarrow> fault + sess" where
  "xmod_upload es s = upload_loop es (upload_init s)"

section \<open>Reference notions\<close>

text \<open>
  The CRC step in the words of the specification: XOR the byte, shifted into the high
  octet, into the accumulator; then 8 rounds, each shifting left and XORing with the
  polynomial \<open>0x1021\<close> when the top bit was set before the shift.
\<close>

definition ccitt_false_round :: "u16 \<Rightarrow> u16" where
  "ccitt_false_round a = (if bit a 15 then push_bit 1 a XOR 0x1021 else push_bit 1 a)"

definition ccitt_false_step :: "u16 \<Rightarrow> u8 \<Rightarrow> u16" where
  "ccitt_false_step a b = (ccitt_false_round ^^ 8) (a XOR push_bit 8 (ucast b))"

text \<open>The CRC of a payload, from the initial accumulator 0.\<close>

definition crc16 :: "u8 list \<Rightarrow> u16" where
  "crc16 p = foldl xmod_crc_update 0 p"

text \<open>
  The frame on the wire for block number \<open>n\<close> and payload \<open>p\<close>: start-of-block, block
  number, its complement, the payload, the CRC high octet first.
\<close>

definition frame :: "u8 \<Rightarrow> u8 list \<Rightarrow> u8 list" where
  "frame n p =
     [X_SOH, n, 0xFF - n] @ p @
     [ucast (drop_bit 8 (crc16 p) AND 0xFF), ucast (crc16 p AND 0xFF)]"

text \<open>
  The session of a freshly started program: every file-scope variable is zero (the first
  enumerator \<^verbatim>\<open>TRANS_AWAIT\<close> is 0), nothing has been sent, and the caller has supplied
  the buffer \<open>buf\<close>.
\<close>

definition power_on :: "u8 list \<Rightarrow> sess" where
  "power_on buf =
     \<lparr>state = TRANS_AWAIT, retrycount = 0, counter = 0, current_crc = 0, crc_recv = 0,
      mempos = 0, blocknum = 0, last_succeeded_block = 0, buffer = buf, uart_tx = []\<rparr>"

text \<open>
  A frame as it may arrive: start-of-block, block number, its complement, the payload and
  two CRC octets that may or may not be the CRC of the payload.
\<close>

definition raw_frame :: "u8 \<Rightarrow> u8 list \<Rightarrow> u8 \<Rightarrow> u8 \<Rightarrow> u8 list" where
  "raw_frame n p h l = [X_SOH, n, 0xFF - n] @ p @ [h, l]"

definition crc_matches :: "u8 list \<Rightarrow> u8 \<Rightarrow> u8 \<Rightarrow> bool" where
  "crc_matches p h l = (push_bit 8 (ucast h) OR ucast l = crc16 p)"

text \<open>
  A transfer as the receiver sees it: a sequence of such frames, each given by its block
  number, payload and CRC octets, and the bytes it puts on the wire.
\<close>

fun raw_wire :: "(u8 \<times> u8 list \<times> u8 \<times> u8) list \<Rightarrow> u8 list" where
  "raw_wire [] = []"
| "raw_wire ((n, p, h, l) # fs) = raw_frame n p h l @ raw_wire fs"

text \<open>
  The number of new blocks a transfer delivers to a receiver whose last committed block
  number is \<open>c\<close>: the frames whose CRC matches and whose block number is not the one
  committed just before. A frame whose CRC does not match commits nothing.
\<close>

fun new_blocks :: "u8 \<Rightarrow> (u8 \<times> u8 list \<times> u8 \<times> u8) list \<Rightarrow> nat" where
  "new_blocks c [] = 0"
| "new_blocks c ((n, p, h, l) # fs) =
     (if crc_matches p h l then (if n = c then 0 else 1) + new_blocks n fs
      else new_blocks c fs)"

text \<open>
  A transfer of 128-byte payloads in which no frame is a corrupted copy of the block
  committed last: a frame that repeats the last committed block number has a matching
  CRC.
\<close>

fun no_corrupted_duplicate :: "u8 \<Rightarrow> (u8 \<times> u8 list \<times> u8 \<times> u8) list \<Rightarrow> bool" where
  "no_corrupted_duplicate c [] = True"
| "no_corrupted_duplicate c ((n, p, h, l) # fs) =
     (length p = 128 \<and> (n \<noteq> c \<or> crc_matches p h l) \<and>
      no_corrupted_duplicate (if crc_matches p h l then n else c) fs)"

text \<open>
  The round trip through the shared buffer: the bytes \<open>bs\<close> go through the receive loop,
  then the transmit driver is called (for the block number the receiver has stored); the
  result is what that call sent.
\<close>

definition receive_transmit :: "STATE \<Rightarrow> u8 list \<Rightarrow> sess \<Rightarrow> fault + u8 list" where
  "receive_transmit r bs s =
     (case download_loop (map Rx bs) s of
        Inl f \<Rightarrow> Inl f
      | Inr s' \<Rightarrow>
          (case xmod_sendblock r s' of
             Inl f \<Rightarrow> Inl f
           | Inr (_, s'') \<Rightarrow> Inr (drop (length (uart_tx s')) (uart_tx s''))))"

section \<open>The CRC engine computes the CCITT step\<close>

lemma top_bit_test: "(a AND 0x8000 \<noteq> 0) = bit (a :: u16) 15"
proof -
  have "a AND 0x8000 = a AND push_bit 15 1" by simp
  also have "\<dots> \<noteq> 0 \<longleftrightarrow> bit a 15"
    by (simp only: and_exp_eq_0_iff_not_bit push_bit_of_1) (simp add: and_exp_eq_0_iff_not_bit)
  finally show ?thesis .
qed

lemma crc_round_eq: "crc_round = ccitt_false_round"
  by (rule ext) (simp add: crc_round_def ccitt_false_round_def POLY_def top_bit_test)

lemma crc_loop_funpow: "unat i \<le> 8 \<Longrightarrow> crc_loop i a = (crc_round ^^ (8 - unat i)) a"
proof (induction i a rule: crc_loop.induct)
  case (1 i a)
  show ?case
  proof (cases "i < 8")
    case True
    then have lt: "unat i < 8" by (simp add: word_less_nat_alt)
    then have suc: "unat (i + 1) = Suc (unat i)" by (simp add: unat_word_ariths)
    have "8 - unat i = Suc (8 - unat (i + 1))" using lt suc by simp
    moreover have "crc_loop (i + 1) (crc_round a) = (crc_round ^^ (8 - unat (i + 1))) (crc_round a)"
      using "1.IH" [OF True] lt suc by simp
    ultimately show ?thesis using True
      by (subst crc_loop.simps) (simp add: funpow_swap1 del: crc_loop.simps)
  next
    case False
    then have "unat i = 8" using 1(2) by (simp add: word_less_nat_alt)
    with False show ?thesis by simp
  qed
qed

lemma xmod_crc_update_step: "xmod_crc_update a b = ccitt_false_step a b"
  by (simp add: xmod_crc_update_def ccitt_false_step_def crc_loop_funpow crc_round_eq
        del: crc_loop.simps)

section \<open>Stepping the receive state machine\<close>

lemma handlebyte_RUN:
  assumes "state s = TRANS_RUN" "unat (mempos s) < length (buffer s)"
  shows "handlebyte d s =
     Inr (if counter s + 1 = 128 then TRANS_CRC1 else TRANS_RUN,
          s\<lparr>counter := counter s + 1,
            current_crc := xmod_crc_update (current_crc s) d,
            buffer := (buffer s)[unat (mempos s) := d],
            mempos := mempos s + 1\<rparr>)"
  using assms by (simp add: handlebyte_def XMOD_BUFFSIZE_def Let_def)

lemma handlebyte_RUN_fault:
  assumes "state s = TRANS_RUN" "length (buffer s) \<le> unat (mempos s)"
  shows "handlebyte d s = Inl (OutOfBounds (unat (mempos s)))"
  using assms by (simp add: handlebyte_def XMOD_BUFFSIZE_def Let_def)

lemma take_Suc_update:
  "c < length xs \<Longrightarrow> take (Suc c) (xs[c := x]) = take c xs @ [x]"
  by (simp add: take_Suc_conv_app_nth)

lemma run_payload:
  assumes "state s = TRANS_RUN" "counter s < 128" "counter s + int (length p) \<le> 128"
    and "unat (mempos s) + length p \<le> length (buffer s)" "length (buffer s) < 65536"
  shows "download_loop (map Rx p) s =
     Inr (s\<lparr>state := (if counter s + int (length p) = 128 then TRANS_CRC1 else TRANS_RUN),
            counter := counter s + int (length p),
            current_crc := foldl xmod_crc_update (current_crc s) p,
            mempos := mempos s + of_nat (length p),
            buffer := take (unat (mempos s)) (buffer s) @ p @
                      drop (unat (mempos s) + length p) (buffer s)\<rparr>)"
  using assms
proof (induction p arbitrary: s)
  case Nil
  then show ?case by simp
next
  case (Cons x p)
  let ?c = "unat (mempos s)"
  let ?s1 = "s\<lparr>counter := counter s + 1,
            current_crc := xmod_crc_update (current_crc s) x,
            buffer := (buffer s)[?c := x],
            mempos := mempos s + 1, 
            state := (if counter s + 1 = 128 then TRANS_CRC1 else TRANS_RUN)\<rparr>"
  from Cons.prems have inb: "?c < length (buffer s)" by simp
  have body: "download_body (Rx x) s = Inr ?s1"
    using Cons.prems(1) inb by (simp add: download_body_def handlebyte_RUN)
  have suc: "unat (mempos s + 1) = Suc ?c"
    using inb Cons.prems(5) by (simp add: unat_word_ariths)
  show ?case
  proof (cases "counter s + 1 = 128")
    case True
    with Cons.prems(3) have "p = []" by simp
    with True body inb show ?thesis by (simp add: upd_conv_take_nth_drop)
  next
    case False
    have "download_loop (map Rx p) ?s1 = Inr (?s1\<lparr>state := (if counter ?s1 + int (length p) = 128 then TRANS_CRC1 else TRANS_RUN),
            counter := counter ?s1 + int (length p),
            current_crc := foldl xmod_crc_update (current_crc ?s1) p,
            mempos := mempos ?s1 + of_nat (length p),
            buffer := take (unat (mempos ?s1)) (buffer ?s1) @ p @
                      drop (unat (mempos ?s1) + length p) (buffer ?s1)\<rparr>)"
      using False Cons.prems suc by (intro Cons.IH) auto
    then show ?thesis using body False suc inb
      by (simp add: take_Suc_update ac_simps)
  qed
qed


lemma download_loop_append:
  "download_loop (es1 @ es2) s =
     (case download_loop es1 s of
        Inl f \<Rightarrow> Inl f
      | Inr s' \<Rightarrow>
          if es1 \<noteq> [] \<and> (state s' = TRANS_ABORT \<or> state s' = TRANS_END) then Inr s'
          else download_loop es2 s')"
proof (induction es1 arbitrary: s)
  case Nil
  show ?case by simp
next
  case (Cons e es1)
  show ?case
  proof (cases "download_body e s")
    case (Inl f)
    then show ?thesis by simp
  next
    case (Inr s')
    show ?thesis
    proof (cases "state s' \<noteq> TRANS_ABORT \<and> state s' \<noteq> TRANS_END")
      case True
      then show ?thesis using Inr Cons.IH [of s']
        by (cases es1) (auto split: sum.splits)
    next
      case False
      then show ?thesis using Inr by auto
    qed
  qed
qed

lemma uint_complement: "uint (0xFF - n :: u8) = 0xFF - uint n"
proof -
  have "uint n < 2 ^ 8" using uint_lt2p [of n] by simp
  then have "uint n \<le> uint (0xFF :: u8)" by simp
  then have "uint (0xFF - n) = uint (0xFF :: u8) - uint n"
    by (simp only: uint_sub_lem)
  then show ?thesis by simp
qed

lemma complement_test: "(uint b \<noteq> 0xFF - uint d) = (d \<noteq> 0xFF - (b :: u8))"
proof -
  have "(uint b = 0xFF - uint d) = (uint d = uint (0xFF - b))"
    by (auto simp: uint_complement)
  then show ?thesis by (simp add: word_uint_eq_iff)
qed

lemma body_SOH:
  "state s = TRANS_AWAIT \<Longrightarrow>
   download_body (Rx X_SOH) s = Inr (s\<lparr>counter := 0, current_crc := 0, state := TRANS_BLOCK\<rparr>)"
  by (simp add: download_body_def handlebyte_def)

lemma body_BLOCK:
  "state s = TRANS_BLOCK \<Longrightarrow>
   download_body (Rx n) s = Inr (s\<lparr>blocknum := n, state := TRANS_BLOCK2\<rparr>)"
  by (simp add: download_body_def handlebyte_def)

lemma body_BLOCK2:
  "state s = TRANS_BLOCK2 \<Longrightarrow>
   download_body (Rx d) s =
     Inr (if d \<noteq> 0xFF - blocknum s then s\<lparr>state := TRANS_ABORT\<rparr>
          else s\<lparr>mempos := (if blocknum s = last_succeeded_block s then mempos s - 128
                             else mempos s),
                 state := TRANS_RUN\<rparr>)"
  by (simp add: download_body_def handlebyte_def complement_test)

lemma body_CRC1:
  "state s = TRANS_CRC1 \<Longrightarrow>
   download_body (Rx d) s = Inr (s\<lparr>crc_recv := push_bit 8 (ucast d), state := TRANS_CRC2\<rparr>)"
  by (simp add: download_body_def handlebyte_def)

lemma body_CRC2:
  "state s = TRANS_CRC2 \<Longrightarrow>
   download_body (Rx d) s =
     Inr (if crc_recv s OR ucast d = current_crc s
          then s\<lparr>crc_recv := crc_recv s OR ucast d, uart_tx := uart_tx s @ [X_ACK],
                 last_succeeded_block := blocknum s, state := TRANS_AWAIT\<rparr>
          else s\<lparr>crc_recv := crc_recv s OR ucast d, uart_tx := uart_tx s @ [X_NAK],
                 mempos := mempos s - 128, state := TRANS_AWAIT\<rparr>)"
  by (simp add: download_body_def handlebyte_def uart_putc_def Let_def)


lemma sendblock_loop_sends:
  assumes "unat p \<le> 128" "unat off + 128 \<le> length (buffer s)"
  shows "sendblock_loop p off s =
     Inr (s\<lparr>current_crc := foldl xmod_crc_update (current_crc s)
                              (take (128 - unat p) (drop (unat p + unat off) (buffer s))),
            uart_tx := uart_tx s @ take (128 - unat p) (drop (unat p + unat off) (buffer s))\<rparr>)"
  using assms
proof (induction p off s rule: sendblock_loop.induct)
  case (1 p off s)
  show ?case
  proof (cases "p < 128")
    case True
    then have lt: "unat p < 128" by (simp add: word_less_nat_alt)
    then have suc: "unat (p + 1) = Suc (unat p)" by (simp add: unat_word_ariths)
    have inb: "unat p + unat off < length (buffer s)" using lt "1.prems" by simp
    let ?byte = "buffer s ! (unat p + unat off)"
    let ?s1 = "s\<lparr>current_crc := xmod_crc_update (current_crc s) ?byte\<rparr>"
    have split: "take (128 - unat p) (drop (unat p + unat off) (buffer s)) =
        ?byte # take (128 - Suc (unat p)) (drop (Suc (unat p + unat off)) (buffer s))"
    proof -
      have "128 - unat p = Suc (128 - Suc (unat p))" using lt by simp
      moreover have "drop (unat p + unat off) (buffer s) =
          ?byte # drop (Suc (unat p + unat off)) (buffer s)"
        using inb by (simp add: Cons_nth_drop_Suc)
      ultimately show ?thesis by (simp del: drop_Suc)
    qed
    have "sendblock_loop (p + 1) off (uart_putc ?byte ?s1) =
       Inr ((uart_putc ?byte ?s1)\<lparr>current_crc := foldl xmod_crc_update (current_crc (uart_putc ?byte ?s1))
                              (take (128 - unat (p + 1)) (drop (unat (p + 1) + unat off) (buffer (uart_putc ?byte ?s1)))),
            uart_tx := uart_tx (uart_putc ?byte ?s1) @ take (128 - unat (p + 1)) (drop (unat (p + 1) + unat off) (buffer (uart_putc ?byte ?s1)))\<rparr>)"
      using True inb lt suc "1.prems"
      by (intro "1.IH") (simp_all add: XMOD_BUFFSIZE_def uart_putc_def)
    then show ?thesis using True inb suc split
      by (subst sendblock_loop.simps)
         (simp add: XMOD_BUFFSIZE_def uart_putc_def Let_def del: sendblock_loop.simps)
  next
    case False
    then have "unat p = 128" using "1.prems"(1) by (simp add: word_less_nat_alt)
    with False show ?thesis by simp
  qed
qed

lemma sendblock_offset:
  assumes "1 \<le> unat (b :: u8)"
  shows "unat (word_of_int (128 * (uint b - 1)) :: u16) = 128 * (unat b - 1)"
proof -
  have "unat b < 2 ^ 8" using unsigned_less [of b, where 'a = nat] by simp
  then have "unat b < 256" by simp
  have "128 * (uint b - 1) = int (128 * (unat b - 1))" using assms by (simp add: of_nat_diff)
  then have "(word_of_int (128 * (uint b - 1)) :: u16) = of_nat (128 * (unat b - 1))"
    by (simp only: word_of_int_nat) simp
  moreover have "128 * (unat b - 1) < 2 ^ 16" using \<open>unat b < 256\<close> by simp
  ultimately show ?thesis by (simp add: unat_of_nat del: of_nat_mult)
qed

lemma xmod_sendblock_sends:
  assumes "1 \<le> unat (blocknum s)" "128 * unat (blocknum s) \<le> length (buffer s)"
  shows "xmod_sendblock r s =
     Inr (r, s\<lparr>current_crc := crc16 (take 128 (drop (128 * (unat (blocknum s) - 1)) (buffer s))),
               uart_tx := uart_tx s @
                 frame (blocknum s) (take 128 (drop (128 * (unat (blocknum s) - 1)) (buffer s)))\<rparr>)"
proof -
  let ?off = "word_of_int (128 * (uint (blocknum s) - 1)) :: u16"
  have off: "unat ?off = 128 * (unat (blocknum s) - 1)" using assms(1) by (rule sendblock_offset)
  have inb: "unat ?off + 128 \<le> length (buffer s)" using assms off by simp
  let ?s2 = "(uart_putc (0xFF - blocknum s) (uart_putc (blocknum s) (uart_putc X_SOH s)))\<lparr>current_crc := 0\<rparr>"
  have "sendblock_loop 0 ?off ?s2 = Inr (?s2\<lparr>current_crc := foldl xmod_crc_update (current_crc ?s2)
                              (take (128 - unat (0::u8)) (drop (unat (0::u8) + unat ?off) (buffer ?s2))),
            uart_tx := uart_tx ?s2 @ take (128 - unat (0::u8)) (drop (unat (0::u8) + unat ?off) (buffer ?s2))\<rparr>)"
    using inb by (intro sendblock_loop_sends) (simp_all add: uart_putc_def)
  then show ?thesis using inb off
    by (simp add: xmod_sendblock_def Let_def XMOD_BUFFSIZE_def uart_putc_def frame_def crc16_def
          del: sendblock_loop.simps)
qed


lemma receive_block:
  assumes aw: "state s = TRANS_AWAIT" and len: "length p = 128"
    and slot: "slot = (if n = last_succeeded_block s then mempos s - 128 else mempos s)"
    and inb: "unat slot + 128 \<le> length (buffer s)" and cap: "length (buffer s) < 65536"
  shows "download_loop (map Rx ([X_SOH, n, 0xFF - n] @ p @ [h, l])) s =
     Inr (s\<lparr>state := TRANS_AWAIT, counter := 128, current_crc := crc16 p,
            crc_recv := push_bit 8 (ucast h) OR ucast l, blocknum := n,
            buffer := take (unat slot) (buffer s) @ p @ drop (unat slot + 128) (buffer s),
            mempos := (if push_bit 8 (ucast h) OR ucast l = crc16 p then slot + 128 else slot),
            last_succeeded_block :=
              (if push_bit 8 (ucast h) OR ucast l = crc16 p then n else last_succeeded_block s),
            uart_tx := uart_tx s @
              [if push_bit 8 (ucast h) OR ucast l = crc16 p then X_ACK else X_NAK]\<rparr>)"
proof -
  let ?s3 = "s\<lparr>counter := 0, current_crc := 0, blocknum := n, mempos := slot,
               state := TRANS_RUN\<rparr>"
  let ?s4 = "?s3\<lparr>state := TRANS_CRC1, counter := 128, current_crc := crc16 p,
               mempos := slot + 128,
               buffer := take (unat slot) (buffer s) @ p @ drop (unat slot + 128) (buffer s)\<rparr>"
  have hdr: "download_loop (Rx X_SOH # Rx n # Rx (0xFF - n) # rest) s = download_loop rest ?s3"
    for rest
    using aw slot by (simp add: body_SOH body_BLOCK body_BLOCK2)
  have "download_loop (map Rx p) ?s3 =
     Inr (?s3\<lparr>state := (if counter ?s3 + int (length p) = 128 then TRANS_CRC1 else TRANS_RUN),
            counter := counter ?s3 + int (length p),
            current_crc := foldl xmod_crc_update (current_crc ?s3) p,
            mempos := mempos ?s3 + of_nat (length p),
            buffer := take (unat (mempos ?s3)) (buffer ?s3) @ p @
                      drop (unat (mempos ?s3) + length p) (buffer ?s3)\<rparr>)"
    using len inb cap by (intro run_payload) simp_all
  then have pay: "download_loop (map Rx p) ?s3 = Inr ?s4"
    using len by (simp add: crc16_def)
  have tl: "download_loop (map Rx p @ [Rx h, Rx l]) ?s3 = download_loop [Rx h, Rx l] ?s4"
    by (simp only: download_loop_append pay) simp
  have "map Rx ([X_SOH, n, 0xFF - n] @ p @ [h, l]) =
      Rx X_SOH # Rx n # Rx (0xFF - n) # (map Rx p @ [Rx h, Rx l])"
    by simp
  then have "download_loop (map Rx ([X_SOH, n, 0xFF - n] @ p @ [h, l])) s =
      download_loop [Rx h, Rx l] ?s4"
    by (simp only: hdr tl)
  then show ?thesis
    by (simp add: body_CRC1 body_CRC2)
qed

section \<open>The CRC step and its initial accumulator\<close>

text \<open>
  C1. For every 16-bit accumulator \<open>a\<close> and 8-bit input \<open>b\<close>, \<^verbatim>\<open>xmod_crc_update(a, b)\<close>
  is the CCITT step of the specification (XOR \<open>b\<close> into the high octet, then 8 rounds of
  shift-left with the polynomial \<open>0x1021\<close> XORed in when the top bit was set before the
  shift). The function takes and returns values only, so it is pure. The accumulator of
  a block starts at 0 on both paths: the receiver clears it at start-of-block, and what
  the transmit driver leaves in it is the fold of the step over the 128 bytes sent, from 0.
\<close>

theorem crc_update_ccitt_false:
  "xmod_crc_update a b = ccitt_false_step a b \<and>
   (state s = TRANS_AWAIT \<longrightarrow>
      handlebyte X_SOH s = Inr (TRANS_BLOCK, s\<lparr>counter := 0, current_crc := 0\<rparr>)) \<and>
   (1 \<le> unat (blocknum t) \<and> 128 * unat (blocknum t) \<le> XMOD_BUFFSIZE t \<longrightarrow>
      (\<exists>t'. xmod_sendblock r t = Inr (r, t') \<and>
            current_crc t' =
              foldl xmod_crc_update 0
                (take 128 (drop (128 * (unat (blocknum t) - 1)) (buffer t)))))"
proof (intro conjI impI)
  show "xmod_crc_update a b = ccitt_false_step a b" by (rule xmod_crc_update_step)
next
  assume "state s = TRANS_AWAIT"
  then show "handlebyte X_SOH s = Inr (TRANS_BLOCK, s\<lparr>counter := 0, current_crc := 0\<rparr>)"
    by (simp add: handlebyte_def)
next
  assume "1 \<le> unat (blocknum t) \<and> 128 * unat (blocknum t) \<le> XMOD_BUFFSIZE t"
  then have "1 \<le> unat (blocknum t)" "128 * unat (blocknum t) \<le> length (buffer t)"
    by (simp_all add: XMOD_BUFFSIZE_def)
  from xmod_sendblock_sends [OF this, of r]
  show "\<exists>t'. xmod_sendblock r t = Inr (r, t') \<and>
            current_crc t' =
              foldl xmod_crc_update 0
                (take 128 (drop (128 * (unat (blocknum t) - 1)) (buffer t)))"
    by (simp add: crc16_def)
qed

lemma funpow8: "(f ^^ 8) x = f (f (f (f (f (f (f (f x)))))))"
  by (simp add: numeral_eq_Suc funpow_swap1)

theorem crc_update_ccitt_false_witness:
  "xmod_crc_update 0 1 = ccitt_false_step 0 1 \<and> ccitt_false_step 0 1 = 0x1021 \<and>
   state (power_on (replicate 256 0)) = TRANS_AWAIT \<and>
   handlebyte X_SOH (power_on (replicate 256 0)) =
     Inr (TRANS_BLOCK, (power_on (replicate 256 0))\<lparr>counter := 0, current_crc := 0\<rparr>) \<and>
   1 \<le> unat (blocknum ((power_on (replicate 256 0))\<lparr>blocknum := 1\<rparr>)) \<and>
   128 * unat (blocknum ((power_on (replicate 256 0))\<lparr>blocknum := 1\<rparr>))
     \<le> XMOD_BUFFSIZE ((power_on (replicate 256 0))\<lparr>blocknum := 1\<rparr>) \<and>
   (\<exists>t'. xmod_sendblock TRANS_RUN ((power_on (replicate 256 0))\<lparr>blocknum := 1\<rparr>) =
            Inr (TRANS_RUN, t') \<and>
         current_crc t' = foldl xmod_crc_update 0 (take 128 (replicate 256 0)))"
proof -
  have "xmod_crc_update 0 1 = 0x1021"
    by (simp add: xmod_crc_update_def crc_loop_funpow funpow8 crc_round_def POLY_def
          del: crc_loop.simps)
  then have step: "ccitt_false_step 0 1 = 0x1021"
    by (simp add: xmod_crc_update_step)
  show ?thesis
    using crc_update_ccitt_false [of 0 1 "power_on (replicate 256 0)"
        "(power_on (replicate 256 0))\<lparr>blocknum := 1\<rparr>" TRANS_RUN] step
    by (simp add: power_on_def XMOD_BUFFSIZE_def)
qed

section \<open>The complement check in \<^verbatim>\<open>BLOCK2\<close>\<close>

lemma download_loop_abort:
  "download_body e s = Inr s' \<Longrightarrow> state s' = TRANS_ABORT \<Longrightarrow> download_loop (e # es) s = Inr s'"
  by simp

text \<open>
  C7. For every byte \<open>d\<close> received in state \<^verbatim>\<open>BLOCK2\<close>: if \<open>d\<close> is not the one's
  complement \<open>0xFF - blocknum\<close> of the stored block number, the frame is rejected, the
  next state is \<^verbatim>\<open>ABORT\<close>, the session is otherwise untouched and the download loop
  ends there, whatever follows on the line, so no payload byte of the frame reaches the
  buffer; if it is the complement, the machine proceeds to \<^verbatim>\<open>RUN\<close>.
\<close>

theorem block2_complement_check:
  "state s = TRANS_BLOCK2 \<Longrightarrow>
   (d \<noteq> 0xFF - blocknum s \<longrightarrow>
      handlebyte d s = Inr (TRANS_ABORT, s) \<and>
      download_loop (Rx d # es) s = Inr (s\<lparr>state := TRANS_ABORT\<rparr>)) \<and>
   (d = 0xFF - blocknum s \<longrightarrow>
      (\<exists>s'. handlebyte d s = Inr (TRANS_RUN, s') \<and> buffer s' = buffer s))"
proof (intro conjI impI)
  assume b2: "state s = TRANS_BLOCK2" and ne: "d \<noteq> 0xFF - blocknum s"
  then show "handlebyte d s = Inr (TRANS_ABORT, s)"
    by (simp add: handlebyte_def complement_test)
  from b2 ne have "download_body (Rx d) s = Inr (s\<lparr>state := TRANS_ABORT\<rparr>)"
    by (simp add: body_BLOCK2)
  then show "download_loop (Rx d # es) s = Inr (s\<lparr>state := TRANS_ABORT\<rparr>)"
    by (rule download_loop_abort) simp
next
  assume "state s = TRANS_BLOCK2" and "d = 0xFF - blocknum s"
  then show "\<exists>s'. handlebyte d s = Inr (TRANS_RUN, s') \<and> buffer s' = buffer s"
    by (simp add: handlebyte_def complement_test)
qed

theorem block2_complement_check_witness:
  "state ((power_on (replicate 256 0))\<lparr>state := TRANS_BLOCK2, blocknum := 1\<rparr>) = TRANS_BLOCK2 \<and>
   (0 :: u8) \<noteq> 0xFF - blocknum ((power_on (replicate 256 0))\<lparr>state := TRANS_BLOCK2, blocknum := 1\<rparr>) \<and>
   handlebyte 0 ((power_on (replicate 256 0))\<lparr>state := TRANS_BLOCK2, blocknum := 1\<rparr>) =
     Inr (TRANS_ABORT, (power_on (replicate 256 0))\<lparr>state := TRANS_BLOCK2, blocknum := 1\<rparr>) \<and>
   download_loop (Rx 0 # [Rx 7]) ((power_on (replicate 256 0))\<lparr>state := TRANS_BLOCK2, blocknum := 1\<rparr>) =
     Inr ((power_on (replicate 256 0))\<lparr>state := TRANS_ABORT, blocknum := 1\<rparr>) \<and>
   (0xFE :: u8) = 0xFF - blocknum ((power_on (replicate 256 0))\<lparr>state := TRANS_BLOCK2, blocknum := 1\<rparr>) \<and>
   (\<exists>s'. handlebyte 0xFE ((power_on (replicate 256 0))\<lparr>state := TRANS_BLOCK2, blocknum := 1\<rparr>) =
           Inr (TRANS_RUN, s') \<and> buffer s' = replicate 256 0)"
  using block2_complement_check [of "(power_on (replicate 256 0))\<lparr>state := TRANS_BLOCK2, blocknum := 1\<rparr>" 0 "[Rx 7]"]
    block2_complement_check [of "(power_on (replicate 256 0))\<lparr>state := TRANS_BLOCK2, blocknum := 1\<rparr>" "0xFE" "[]"]
  by (simp add: power_on_def)

section \<open>The rewind below the start of the buffer\<close>

lemma rewind_wraps: "unat (c - 128 :: u16) = (unat c + 65408) mod 65536"
proof -
  have "c - 128 = c + 65408" by simp
  then show ?thesis by (simp only: unat_word_ariths) simp
qed

lemma minus_128: "(- 128 :: u16) = 65408"
  by simp

lemma download_header:
  "xmod_download (Rx X_SOH # Rx n # Rx (0xFF - n) # es) s =
     download_loop es ((download_init s)\<lparr>counter := 0, current_crc := 0, blocknum := n,
        mempos := (if n = 0 then 65408 else 0), state := TRANS_RUN\<rparr>)"
  by (simp add: xmod_download_def body_SOH body_BLOCK body_BLOCK2 download_init_def uart_putc_def
        minus_128)

text \<open>
  C8. The rewind of the write cursor has no lower bound: \<^verbatim>\<open>mempos -= 128\<close> on the 16-bit
  cursor wraps modulo \<open>2 ^ 16\<close>. In a download session, which starts with the last
  committed block 0 and the cursor 0, a frame with block number 0 and complement
  \<open>0xFF\<close> takes the duplicate branch of \<^verbatim>\<open>BLOCK2\<close>, the cursor becomes 65408, and the
  first payload byte is written at index 65408, outside any buffer of at most 65408
  bytes.
\<close>

theorem rewind_underflow:
  "(state s = TRANS_BLOCK2 \<and> d = 0xFF - blocknum s \<and> blocknum s = last_succeeded_block s \<longrightarrow>
      handlebyte d s = Inr (TRANS_RUN, s\<lparr>mempos := mempos s - 128\<rparr>) \<and>
      unat (mempos s - 128) = (unat (mempos s) + 65408) mod 65536) \<and>
   (XMOD_BUFFSIZE s \<le> 65408 \<longrightarrow>
      (\<exists>s'. xmod_download [Rx X_SOH, Rx 0, Rx 0xFF] s = Inr s' \<and>
            state s' = TRANS_RUN \<and> mempos s' = 65408) \<and>
      xmod_download ([Rx X_SOH, Rx 0, Rx 0xFF, Rx b] @ es) s = Inl (OutOfBounds 65408))"
proof (intro conjI impI)
  assume "state s = TRANS_BLOCK2 \<and> d = 0xFF - blocknum s \<and> blocknum s = last_succeeded_block s"
  then show "handlebyte d s = Inr (TRANS_RUN, s\<lparr>mempos := mempos s - 128\<rparr>)"
    by (simp add: handlebyte_def complement_test)
next
  show "unat (mempos s - 128) = (unat (mempos s) + 65408) mod 65536" by (rule rewind_wraps)
next
  show "\<exists>s'. xmod_download [Rx X_SOH, Rx 0, Rx 0xFF] s = Inr s' \<and>
            state s' = TRANS_RUN \<and> mempos s' = 65408"
    using download_header [of 0 "[]" s] by simp
next
  assume cap: "XMOD_BUFFSIZE s \<le> 65408"
  let ?s3 = "(download_init s)\<lparr>counter := 0, current_crc := 0, blocknum := 0,
        mempos := 65408, state := TRANS_RUN\<rparr>"
  have "handlebyte b ?s3 = Inl (OutOfBounds (unat (mempos ?s3)))"
    using cap by (intro handlebyte_RUN_fault) (simp_all add: XMOD_BUFFSIZE_def download_init_def uart_putc_def)
  then have "download_loop (Rx b # es) ?s3 = Inl (OutOfBounds 65408)"
    by (simp add: download_body_def)
  then show "xmod_download ([Rx X_SOH, Rx 0, Rx 0xFF, Rx b] @ es) s = Inl (OutOfBounds 65408)"
    using download_header [of 0 "Rx b # es" s] by simp
qed

theorem rewind_underflow_witness:
  "state ((power_on (replicate 256 0))\<lparr>state := TRANS_BLOCK2\<rparr>) = TRANS_BLOCK2 \<and>
   (0xFF :: u8) = 0xFF - blocknum ((power_on (replicate 256 0))\<lparr>state := TRANS_BLOCK2\<rparr>) \<and>
   blocknum ((power_on (replicate 256 0))\<lparr>state := TRANS_BLOCK2\<rparr>) =
     last_succeeded_block ((power_on (replicate 256 0))\<lparr>state := TRANS_BLOCK2\<rparr>) \<and>
   handlebyte 0xFF ((power_on (replicate 256 0))\<lparr>state := TRANS_BLOCK2\<rparr>) =
     Inr (TRANS_RUN, (power_on (replicate 256 0))\<lparr>state := TRANS_BLOCK2, mempos := 65408\<rparr>) \<and>
   XMOD_BUFFSIZE ((power_on (replicate 256 0))\<lparr>state := TRANS_BLOCK2\<rparr>) \<le> 65408 \<and>
   xmod_download ([Rx X_SOH, Rx 0, Rx 0xFF, Rx 0x2A] @ [])
       ((power_on (replicate 256 0))\<lparr>state := TRANS_BLOCK2\<rparr>) = Inl (OutOfBounds 65408)"
  using rewind_underflow [of "(power_on (replicate 256 0))\<lparr>state := TRANS_BLOCK2\<rparr>" "0xFF" "0x2A" "[]"]
  by (simp add: power_on_def XMOD_BUFFSIZE_def)

section \<open>Silence and the retry ceiling\<close>

lemma silent_polls:
  assumes "state s = TRANS_AWAIT" "0 \<le> retrycount s" "retrycount s \<le> 16"
  shows "download_loop (map Idle mss) s =
     Inr (s\<lparr>retrycount := min (retrycount s + int (length (filter (\<lambda>ms. TIMEOUT_MS < ms) mss))) 16,
            uart_tx := uart_tx s @
              replicate (nat (min (retrycount s + int (length (filter (\<lambda>ms. TIMEOUT_MS < ms) mss))) 16
                               - retrycount s)) 0x43,
            state := (if 17 \<le> retrycount s + int (length (filter (\<lambda>ms. TIMEOUT_MS < ms) mss))
                      then TRANS_ABORT else TRANS_AWAIT)\<rparr>)"
  using assms
proof (induction mss arbitrary: s)
  case Nil
  then show ?case by simp
next
  case (Cons ms mss)
  let ?k = "int (length (filter (\<lambda>ms. TIMEOUT_MS < ms) mss))"
  show ?case
  proof (cases "TIMEOUT_MS < ms")
    case False
    then have "download_body (Idle ms) s = Inr s" by (simp add: download_body_def not_less)
    then show ?thesis using False Cons.prems Cons.IH [of s] by simp
  next
    case True
    show ?thesis
    proof (cases "retrycount s = 16")
      case full: True
      then have "download_body (Idle ms) s = Inr (s\<lparr>state := TRANS_ABORT\<rparr>)"
        using True by (simp add: download_body_def MAXRETRY_def not_le)
      then show ?thesis using True full by simp
    next
      case False
      let ?s1 = "s\<lparr>uart_tx := uart_tx s @ [0x43], retrycount := retrycount s + 1\<rparr>"
      have body: "download_body (Idle ms) s = Inr ?s1"
        using True False Cons.prems
        by (simp add: download_body_def MAXRETRY_def not_le uart_putc_def)
      have "download_loop (map Idle mss) ?s1 =
        Inr (?s1\<lparr>retrycount := min (retrycount ?s1 + ?k) 16,
            uart_tx := uart_tx ?s1 @ replicate (nat (min (retrycount ?s1 + ?k) 16 - retrycount ?s1)) 0x43,
            state := (if 17 \<le> retrycount ?s1 + ?k then TRANS_ABORT else TRANS_AWAIT)\<rparr>)"
        using False Cons.prems by (intro Cons.IH) simp_all
      moreover have "nat (min (retrycount s + (1 + ?k)) 16 - retrycount s) =
          Suc (nat (min (retrycount s + 1 + ?k) 16 - (retrycount s + 1)))"
        using False Cons.prems by (auto simp: min_def)
      ultimately show ?thesis using True body Cons.prems
        by (simp add: add.assoc add.commute add.left_commute)
    qed
  qed
qed


lemma download_silence:
  "xmod_download (map Idle mss) s =
     Inr ((download_init s)
       \<lparr>retrycount := int (min (length (filter (\<lambda>ms. TIMEOUT_MS < ms) mss)) 16),
        uart_tx := uart_tx s @
          replicate (Suc (min (length (filter (\<lambda>ms. TIMEOUT_MS < ms) mss)) 16)) 0x43,
        state := (if 17 \<le> length (filter (\<lambda>ms. TIMEOUT_MS < ms) mss)
                  then TRANS_ABORT else TRANS_AWAIT)\<rparr>)"
proof -
  let ?k = "length (filter (\<lambda>ms. TIMEOUT_MS < ms) mss)"
  have "download_loop (map Idle mss) (download_init s) =
     Inr ((download_init s)\<lparr>retrycount := min (retrycount (download_init s) + int ?k) 16,
            uart_tx := uart_tx (download_init s) @
              replicate (nat (min (retrycount (download_init s) + int ?k) 16
                               - retrycount (download_init s))) 0x43,
            state := (if 17 \<le> retrycount (download_init s) + int ?k
                      then TRANS_ABORT else TRANS_AWAIT)\<rparr>)"
    by (intro silent_polls) (simp_all add: download_init_def uart_putc_def)
  moreover have "nat (min (int ?k) 16) = min ?k 16" by (simp add: min_def)
  moreover have "min (int ?k) 16 = int (min ?k 16)" by (simp add: min_def)
  ultimately show ?thesis
    by (simp add: xmod_download_def download_init_def uart_putc_def replicate_app_Cons_same)
qed

text \<open>
  C4, as amended. In a download session in which no byte ever arrives, the session is in
  \<^verbatim>\<open>ABORT\<close> exactly when 17 or more of the silent polling iterations found the timer
  above 1000 ms: handshake number 1 is sent at the start, each of the first 16 such
  iterations sends one more and counts a retry, and the 17th aborts. One such iteration
  aborts exactly when it finds the retry counter above the maximum of 15, and otherwise
  sends the handshake and increments the counter.
\<close>

theorem download_silence_abort:
  "(\<exists>s'. xmod_download (map Idle mss) s = Inr s' \<and>
         (state s' = TRANS_ABORT) = (17 \<le> length (filter (\<lambda>ms. TIMEOUT_MS < ms) mss)) \<and>
         retrycount s' = int (min (length (filter (\<lambda>ms. TIMEOUT_MS < ms) mss)) 16) \<and>
         uart_tx s' = uart_tx s @
           replicate (Suc (min (length (filter (\<lambda>ms. TIMEOUT_MS < ms) mss)) 16)) 0x43) \<and>
   (TIMEOUT_MS < ms \<longrightarrow>
      download_body (Idle ms) t =
        Inr (if MAXRETRY < retrycount t then t\<lparr>state := TRANS_ABORT\<rparr>
             else (uart_putc 0x43 t)\<lparr>retrycount := retrycount t + 1\<rparr>))"
  by (simp add: download_silence download_body_def not_le)

theorem download_silence_abort_witness:
  "(\<exists>s'. xmod_download (map Idle (replicate 17 1001)) (power_on (replicate 256 0)) = Inr s' \<and>
         state s' = TRANS_ABORT \<and> retrycount s' = 16 \<and> uart_tx s' = replicate 17 0x43) \<and>
   TIMEOUT_MS < 1001 \<and>
   download_body (Idle 1001) ((power_on (replicate 256 0))\<lparr>retrycount := 16\<rparr>) =
     Inr ((power_on (replicate 256 0))\<lparr>retrycount := 16, state := TRANS_ABORT\<rparr>)"
  using download_silence_abort [of "replicate 17 1001" "power_on (replicate 256 0)" 1001
      "(power_on (replicate 256 0))\<lparr>retrycount := 16\<rparr>"]
  by (simp add: TIMEOUT_MS_def MAXRETRY_def power_on_def)

text \<open>
  C4 as stated fails: after 16 silent polling iterations beyond the timeout the session
  is still in \<^verbatim>\<open>AWAIT\<close>.
\<close>

theorem sixteen_silent_polls_do_not_abort:
  "map_sum id state (xmod_download (replicate 16 (Idle 1001)) (power_on (replicate 256 0))) =
     Inr TRANS_AWAIT"
  using download_silence [of "replicate 16 1001" "power_on (replicate 256 0)"]
  by (simp add: TIMEOUT_MS_def)

section \<open>Stepping the upload loop\<close>

lemma upload_handshake:
  assumes "128 \<le> length (buffer s)"
  shows "upload_body r (Rx 0x43) s =
     Inr (s\<lparr>blocknum := 1, current_crc := crc16 (take 128 (buffer s)),
            uart_tx := uart_tx s @ frame 1 (take 128 (buffer s)), state := r\<rparr>)"
proof -
  have "xmod_sendblock r (s\<lparr>blocknum := 1\<rparr>) =
     Inr (r, (s\<lparr>blocknum := 1\<rparr>)\<lparr>current_crc := crc16 (take 128 (drop (128 * (unat (blocknum (s\<lparr>blocknum := 1\<rparr>)) - 1)) (buffer (s\<lparr>blocknum := 1\<rparr>)))),
               uart_tx := uart_tx (s\<lparr>blocknum := 1\<rparr>) @
                 frame (blocknum (s\<lparr>blocknum := 1\<rparr>)) (take 128 (drop (128 * (unat (blocknum (s\<lparr>blocknum := 1\<rparr>)) - 1)) (buffer (s\<lparr>blocknum := 1\<rparr>))))\<rparr>)"
    using assms by (intro xmod_sendblock_sends) simp_all
  then show ?thesis by (simp add: upload_body_def)
qed

lemma upload_resend:
  assumes "1 \<le> unat (blocknum s)" "128 * unat (blocknum s) \<le> length (buffer s)"
    and "d \<noteq> 0x43" "d \<noteq> X_ACK"
  shows "upload_body r (Rx d) s =
     Inr (s\<lparr>current_crc := crc16 (take 128 (drop (128 * (unat (blocknum s) - 1)) (buffer s))),
            uart_tx := uart_tx s @
              frame (blocknum s) (take 128 (drop (128 * (unat (blocknum s) - 1)) (buffer s)))\<rparr>)"
  using assms by (simp add: upload_body_def xmod_sendblock_sends)

lemma upload_ack:
  assumes "1 \<le> unat (blocknum s)" "128 * unat (blocknum s) \<le> length (buffer s)"
    and "length (buffer s) < 32640"
  shows "upload_body r (Rx X_ACK) s =
     Inr (if length (buffer s) div 128 < unat (blocknum s + 1)
          then s\<lparr>blocknum := blocknum s + 1, uart_tx := uart_tx s @ [X_EOT], state := TRANS_END\<rparr>
          else s\<lparr>blocknum := blocknum s + 1,
                 current_crc := crc16 (take 128 (drop (128 * unat (blocknum s)) (buffer s))),
                 uart_tx := uart_tx s @
                   frame (blocknum s + 1) (take 128 (drop (128 * unat (blocknum s)) (buffer s)))\<rparr>)"
proof -
  have b: "unat (blocknum s) \<le> length (buffer s) div 128" using assms(2) by simp
  then have "unat (blocknum s) < 255" using assms(3) by simp
  then have suc: "unat (blocknum s + 1) = Suc (unat (blocknum s))"
    by (simp add: unat_word_ariths)
  have ack: "X_ACK \<noteq> (0x43 :: u8)" by (simp add: X_ACK_def)
  show ?thesis
  proof (cases "length (buffer s) div 128 < unat (blocknum s + 1)")
    case True
    with b suc have "unat (blocknum s + 1) = length (buffer s) div 128 + 1" by simp
    with True ack show ?thesis
      by (simp add: upload_body_def XMOD_BUFFSIZE_def uart_putc_def)
  next
    case False
    then have le: "Suc (unat (blocknum s)) \<le> length (buffer s) div 128" using suc by simp
    then have inb: "128 * unat (blocknum (s\<lparr>blocknum := blocknum s + 1\<rparr>)) \<le> length (buffer (s\<lparr>blocknum := blocknum s + 1\<rparr>))"
      using suc by simp
    have one: "1 \<le> unat (blocknum (s\<lparr>blocknum := blocknum s + 1\<rparr>))" using suc by simp
    have ne: "unat (blocknum s + 1) \<noteq> length (buffer s) div 128 + 1" using False by simp
    show ?thesis using False ack ne suc
      by (simp add: upload_body_def XMOD_BUFFSIZE_def xmod_sendblock_sends [OF one inb])
  qed
qed

lemma blocknum_suc:
  assumes "128 * unat (b :: u8) \<le> cap" "cap < 32640"
  shows "unat (b + 1) = Suc (unat b)"
proof -
  from assms have "unat b < 255" by simp
  then show ?thesis by (simp add: unat_word_ariths)
qed

lemma upload_body_inv:
  assumes "1 \<le> unat (blocknum s)" "128 * unat (blocknum s) \<le> length (buffer s)"
    and "length (buffer s) < 32640"
  shows "\<exists>s'. upload_body r e s = Inr s' \<and> buffer s' = buffer s \<and>
     (state s' \<noteq> TRANS_END \<longrightarrow>
        1 \<le> unat (blocknum s') \<and> 128 * unat (blocknum s') \<le> length (buffer s'))"
proof (cases e)
  case (Idle ms)
  then show ?thesis using assms by (simp add: upload_body_def)
next
  case (Rx d)
  have cap: "128 \<le> length (buffer s)" using assms(1,2) by simp
  consider "d = 0x43" | "d = X_ACK" | "d \<noteq> 0x43" "d \<noteq> X_ACK" by blast
  then show ?thesis
  proof cases
    case 1
    then show ?thesis using Rx cap by (simp add: upload_handshake)
  next
    case 2
    have suc: "unat (blocknum s + 1) = Suc (unat (blocknum s))"
      using assms(2,3) by (rule blocknum_suc)
    show ?thesis
    proof (cases "length (buffer s) div 128 < unat (blocknum s + 1)")
      case True
      then show ?thesis using Rx 2 by (simp add: upload_ack [OF assms])
    next
      case False
      then have "128 * unat (blocknum s + 1) \<le> length (buffer s)" by simp
      then show ?thesis using Rx 2 False suc by (simp add: upload_ack [OF assms])
    qed
  next
    case 3
    then show ?thesis using Rx assms by (simp add: upload_resend)
  qed
qed

lemma upload_loop_inv:
  assumes "1 \<le> unat (blocknum s)" "128 * unat (blocknum s) \<le> length (buffer s)"
    and "length (buffer s) < 32640"
  shows "\<exists>s'. upload_loop es s = Inr s' \<and> buffer s' = buffer s \<and>
     (state s' \<noteq> TRANS_END \<longrightarrow>
        1 \<le> unat (blocknum s') \<and> 128 * unat (blocknum s') \<le> length (buffer s'))"
  using assms
proof (induction es arbitrary: s)
  case Nil
  then show ?case by simp
next
  case (Cons re es)
  obtain r e where re: "re = (r, e)" by (cases re)
  from upload_body_inv [OF Cons.prems, of r e] obtain s1 where
    body: "upload_body r e s = Inr s1" and buf: "buffer s1 = buffer s" and
    inv: "state s1 \<noteq> TRANS_END \<longrightarrow>
        1 \<le> unat (blocknum s1) \<and> 128 * unat (blocknum s1) \<le> length (buffer s1)"
    by blast
  show ?case
  proof (cases "state s1 \<noteq> TRANS_END \<and> state s1 \<noteq> TRANS_ABORT")
    case True
    with inv buf Cons.prems(3) have
      "\<exists>s'. upload_loop es s1 = Inr s' \<and> buffer s' = buffer s1 \<and>
         (state s' \<noteq> TRANS_END \<longrightarrow>
            1 \<le> unat (blocknum s') \<and> 128 * unat (blocknum s') \<le> length (buffer s'))"
      by (intro Cons.IH) simp_all
    then show ?thesis using True body buf re by simp
  next
    case False
    then show ?thesis using body buf inv re by auto
  qed
qed

lemma upload_loop_append:
  "upload_loop (es1 @ es2) s =
     (case upload_loop es1 s of
        Inl f \<Rightarrow> Inl f
      | Inr s' \<Rightarrow>
          if es1 \<noteq> [] \<and> (state s' = TRANS_END \<or> state s' = TRANS_ABORT) then Inr s'
          else upload_loop es2 s')"
proof (induction es1 arbitrary: s)
  case Nil
  show ?case by simp
next
  case (Cons re es1)
  obtain r e where re: "re = (r, e)" by (cases re)
  show ?case
  proof (cases "upload_body r e s")
    case (Inl f)
    then show ?thesis using re by simp
  next
    case (Inr s')
    show ?thesis
    proof (cases "state s' \<noteq> TRANS_END \<and> state s' \<noteq> TRANS_ABORT")
      case True
      then show ?thesis using Inr re Cons.IH [of s']
        by (cases es1) (auto split: sum.splits)
    next
      case False
      then show ?thesis using Inr re by auto
    qed
  qed
qed

lemma upload_loop_resume:
  assumes "upload_loop es s0 = Inr s" "state s \<noteq> TRANS_END" "state s \<noteq> TRANS_ABORT"
  shows "upload_loop (es @ es2) s0 = upload_loop es2 s"
  using assms by (simp add: upload_loop_append)

text \<open>
  C6, as amended. In an upload over a buffer of at least 128 and fewer than 32640 bytes,
  at every point the loop reaches from its start without having ended: on receipt of ACK
  the block number is advanced; if the new block number exceeds the number of 128-byte
  blocks the buffer holds, end-of-transmission (0x04) is emitted and the loop stops in
  \<^verbatim>\<open>END\<close>, whatever follows on the line; otherwise the frame of the next block is sent
  and the loop goes on. Any inbound byte other than \<open>C\<close> (0x43) or ACK makes the loop
  send the frame of the current block again and go on.
\<close>

theorem upload_ack_advances_or_ends:
  assumes "128 \<le> XMOD_BUFFSIZE s0" "XMOD_BUFFSIZE s0 < 32640"
  shows "\<exists>s. xmod_upload es s0 = Inr s \<and>
     (state s \<noteq> TRANS_END \<and> state s \<noteq> TRANS_ABORT \<longrightarrow>
        (XMOD_BUFFSIZE s div 128 < Suc (unat (blocknum s)) \<longrightarrow>
           xmod_upload (es @ (r, Rx X_ACK) # es') s0 =
             Inr (s\<lparr>blocknum := blocknum s + 1, uart_tx := uart_tx s @ [X_EOT],
                    state := TRANS_END\<rparr>)) \<and>
        (Suc (unat (blocknum s)) \<le> XMOD_BUFFSIZE s div 128 \<longrightarrow>
           xmod_upload (es @ (r, Rx X_ACK) # es') s0 =
             upload_loop es'
               (s\<lparr>blocknum := blocknum s + 1,
                  current_crc := crc16 (take 128 (drop (128 * unat (blocknum s)) (buffer s))),
                  uart_tx := uart_tx s @
                    frame (blocknum s + 1)
                      (take 128 (drop (128 * unat (blocknum s)) (buffer s)))\<rparr>)) \<and>
        (d \<noteq> 0x43 \<and> d \<noteq> X_ACK \<longrightarrow>
           xmod_upload (es @ (r, Rx d) # es') s0 =
             upload_loop es'
               (s\<lparr>current_crc :=
                    crc16 (take 128 (drop (128 * (unat (blocknum s) - 1)) (buffer s))),
                  uart_tx := uart_tx s @
                    frame (blocknum s)
                      (take 128 (drop (128 * (unat (blocknum s) - 1)) (buffer s)))\<rparr>)))"
proof -
  have "\<exists>s. upload_loop es (upload_init s0) = Inr s \<and> buffer s = buffer (upload_init s0) \<and>
     (state s \<noteq> TRANS_END \<longrightarrow>
        1 \<le> unat (blocknum s) \<and> 128 * unat (blocknum s) \<le> length (buffer s))"
    using assms by (intro upload_loop_inv) (simp_all add: upload_init_def XMOD_BUFFSIZE_def)
  then obtain s where run: "upload_loop es (upload_init s0) = Inr s"
    and buf: "buffer s = buffer s0"
    and inv: "state s \<noteq> TRANS_END \<longrightarrow>
        1 \<le> unat (blocknum s) \<and> 128 * unat (blocknum s) \<le> length (buffer s)"
    by (auto simp: upload_init_def)
  have cap: "length (buffer s) < 32640" using assms(2) buf by (simp add: XMOD_BUFFSIZE_def)
  show ?thesis
  proof (intro exI conjI impI)
    show "xmod_upload es s0 = Inr s" using run by (simp add: xmod_upload_def)
  next
    assume live: "state s \<noteq> TRANS_END \<and> state s \<noteq> TRANS_ABORT"
      and ends: "XMOD_BUFFSIZE s div 128 < Suc (unat (blocknum s))"
    with inv have i: "1 \<le> unat (blocknum s)" "128 * unat (blocknum s) \<le> length (buffer s)"
      by simp_all
    have suc: "unat (blocknum s + 1) = Suc (unat (blocknum s))" using i(2) cap by (rule blocknum_suc)
    have "upload_body r (Rx X_ACK) s =
        Inr (s\<lparr>blocknum := blocknum s + 1, uart_tx := uart_tx s @ [X_EOT], state := TRANS_END\<rparr>)"
      using ends suc by (simp add: upload_ack [OF i cap] XMOD_BUFFSIZE_def)
    then have "upload_loop ((r, Rx X_ACK) # es') s =
        Inr (s\<lparr>blocknum := blocknum s + 1, uart_tx := uart_tx s @ [X_EOT], state := TRANS_END\<rparr>)"
      by simp
    then show "xmod_upload (es @ (r, Rx X_ACK) # es') s0 =
             Inr (s\<lparr>blocknum := blocknum s + 1, uart_tx := uart_tx s @ [X_EOT],
                    state := TRANS_END\<rparr>)"
      using live by (simp add: xmod_upload_def upload_loop_resume [OF run])
  next
    assume live: "state s \<noteq> TRANS_END \<and> state s \<noteq> TRANS_ABORT"
      and more: "Suc (unat (blocknum s)) \<le> XMOD_BUFFSIZE s div 128"
    with inv have i: "1 \<le> unat (blocknum s)" "128 * unat (blocknum s) \<le> length (buffer s)"
      by simp_all
    have suc: "unat (blocknum s + 1) = Suc (unat (blocknum s))" using i(2) cap by (rule blocknum_suc)
    let ?s1 = "s\<lparr>blocknum := blocknum s + 1,
                  current_crc := crc16 (take 128 (drop (128 * unat (blocknum s)) (buffer s))),
                  uart_tx := uart_tx s @
                    frame (blocknum s + 1)
                      (take 128 (drop (128 * unat (blocknum s)) (buffer s)))\<rparr>"
    have "upload_body r (Rx X_ACK) s = Inr ?s1"
      using more suc by (simp add: upload_ack [OF i cap] XMOD_BUFFSIZE_def)
    then have "upload_loop ((r, Rx X_ACK) # es') s = upload_loop es' ?s1"
      using live by simp
    then show "xmod_upload (es @ (r, Rx X_ACK) # es') s0 = upload_loop es' ?s1"
      using live by (simp add: xmod_upload_def upload_loop_resume [OF run])
  next
    assume live: "state s \<noteq> TRANS_END \<and> state s \<noteq> TRANS_ABORT"
      and d: "d \<noteq> 0x43 \<and> d \<noteq> X_ACK"
    with inv have i: "1 \<le> unat (blocknum s)" "128 * unat (blocknum s) \<le> length (buffer s)"
      by simp_all
    let ?s1 = "s\<lparr>current_crc :=
                    crc16 (take 128 (drop (128 * (unat (blocknum s) - 1)) (buffer s))),
                  uart_tx := uart_tx s @
                    frame (blocknum s)
                      (take 128 (drop (128 * (unat (blocknum s) - 1)) (buffer s)))\<rparr>"
    have "upload_body r (Rx d) s = Inr ?s1"
      using d by (intro upload_resend [OF i]) simp_all
    then have "upload_loop ((r, Rx d) # es') s = upload_loop es' ?s1"
      using live by simp
    then show "xmod_upload (es @ (r, Rx d) # es') s0 = upload_loop es' ?s1"
      using live by (simp add: xmod_upload_def upload_loop_resume [OF run])
  qed
qed


theorem upload_ack_advances_or_ends_witness:
  "128 \<le> XMOD_BUFFSIZE (power_on (replicate 256 0)) \<and>
   XMOD_BUFFSIZE (power_on (replicate 256 0)) < 32640 \<and>
   xmod_upload [] (power_on (replicate 256 0)) = Inr (upload_init (power_on (replicate 256 0))) \<and>
   state (upload_init (power_on (replicate 256 0))) \<noteq> TRANS_END \<and>
   state (upload_init (power_on (replicate 256 0))) \<noteq> TRANS_ABORT \<and>
   Suc (unat (blocknum (upload_init (power_on (replicate 256 0)))))
     \<le> XMOD_BUFFSIZE (upload_init (power_on (replicate 256 0))) div 128 \<and>
   xmod_upload [(TRANS_RUN, Rx X_ACK)] (power_on (replicate 256 0)) =
     Inr ((power_on (replicate 256 0))
            \<lparr>blocknum := 2, current_crc := crc16 (replicate 128 0),
             uart_tx := frame 2 (replicate 128 0)\<rparr>) \<and>
   X_NAK \<noteq> 0x43 \<and> X_NAK \<noteq> X_ACK \<and>
   xmod_upload [(TRANS_RUN, Rx X_NAK)] (power_on (replicate 256 0)) =
     Inr ((power_on (replicate 256 0))
            \<lparr>blocknum := 1, current_crc := crc16 (replicate 128 0),
             uart_tx := frame 1 (replicate 128 0)\<rparr>) \<and>
   XMOD_BUFFSIZE ((power_on (replicate 256 0))
            \<lparr>blocknum := 2, current_crc := crc16 (replicate 128 0),
             uart_tx := frame 2 (replicate 128 0)\<rparr>) div 128
     < Suc (unat (blocknum ((power_on (replicate 256 0))
            \<lparr>blocknum := 2, current_crc := crc16 (replicate 128 0),
             uart_tx := frame 2 (replicate 128 0)\<rparr>))) \<and>
   xmod_upload ([(TRANS_RUN, Rx X_ACK)] @ (TRANS_RUN, Rx X_ACK) # [(TRANS_RUN, Rx X_NAK)])
       (power_on (replicate 256 0)) =
     Inr ((power_on (replicate 256 0))
            \<lparr>blocknum := 3, current_crc := crc16 (replicate 128 0),
             uart_tx := frame 2 (replicate 128 0) @ [X_EOT], state := TRANS_END\<rparr>)"
proof -
  let ?p0 = "power_on (replicate 256 (0 :: u8))"
  let ?S1 = "?p0\<lparr>blocknum := 2, current_crc := crc16 (replicate 128 0),
             uart_tx := frame 2 (replicate 128 0)\<rparr>"
  have init: "xmod_upload [] ?p0 = Inr (upload_init ?p0)" by (simp add: xmod_upload_def)
  have nak: "X_NAK \<noteq> (0x43 :: u8)" "X_NAK \<noteq> X_ACK" by (simp_all add: X_NAK_def X_ACK_def)
  have b: "xmod_upload [(TRANS_RUN, Rx X_ACK)] ?p0 = Inr ?S1"
    using upload_ack_advances_or_ends [of ?p0 "[]" TRANS_RUN "[]" X_NAK]
    by (simp add: init) (simp add: upload_init_def power_on_def XMOD_BUFFSIZE_def)
  have c: "xmod_upload [(TRANS_RUN, Rx X_NAK)] ?p0 =
     Inr (?p0\<lparr>blocknum := 1, current_crc := crc16 (replicate 128 0),
             uart_tx := frame 1 (replicate 128 0)\<rparr>)"
    using upload_ack_advances_or_ends [of ?p0 "[]" TRANS_RUN "[]" X_NAK] nak
    by (simp add: init) (simp add: upload_init_def power_on_def XMOD_BUFFSIZE_def)
  have a: "xmod_upload ([(TRANS_RUN, Rx X_ACK)] @ (TRANS_RUN, Rx X_ACK) # [(TRANS_RUN, Rx X_NAK)]) ?p0 =
     Inr (?p0\<lparr>blocknum := 3, current_crc := crc16 (replicate 128 0),
             uart_tx := frame 2 (replicate 128 0) @ [X_EOT], state := TRANS_END\<rparr>)"
    using upload_ack_advances_or_ends [of ?p0 "[(TRANS_RUN, Rx X_ACK)]" TRANS_RUN
        "[(TRANS_RUN, Rx X_NAK)]" X_NAK]
    by (simp only: b) (simp add: power_on_def XMOD_BUFFSIZE_def)
  show ?thesis using init a b c nak
    by (simp add: power_on_def XMOD_BUFFSIZE_def upload_init_def)
qed


lemma frame_length: "length (frame n p) = length p + 5"
  by (simp add: frame_def)

lemma upload_ack_next:
  assumes "1 \<le> unat (blocknum s)" "128 * (unat (blocknum s) + 1) \<le> length (buffer s)"
    and "unat (blocknum s) < 255"
  shows "upload_body r (Rx X_ACK) s =
     Inr (s\<lparr>blocknum := blocknum s + 1,
            current_crc := crc16 (take 128 (drop (128 * unat (blocknum s)) (buffer s))),
            uart_tx := uart_tx s @
              frame (blocknum s + 1) (take 128 (drop (128 * unat (blocknum s)) (buffer s)))\<rparr>)"
proof -
  have suc: "unat (blocknum s + 1) = Suc (unat (blocknum s))"
    using assms(3) by (simp add: unat_word_ariths)
  have ack: "X_ACK \<noteq> (0x43 :: u8)" by (simp add: X_ACK_def)
  have "Suc (unat (blocknum s)) \<le> length (buffer s) div 128" using assms(2) by simp
  then have ne: "unat (blocknum s + 1) \<noteq> length (buffer s) div 128 + 1" using suc by simp
  have one: "1 \<le> unat (blocknum (s\<lparr>blocknum := blocknum s + 1\<rparr>))" using suc by simp
  have inb: "128 * unat (blocknum (s\<lparr>blocknum := blocknum s + 1\<rparr>))
      \<le> length (buffer (s\<lparr>blocknum := blocknum s + 1\<rparr>))"
    using suc assms(2) by simp
  show ?thesis using ack ne suc
    by (simp add: upload_body_def XMOD_BUFFSIZE_def xmod_sendblock_sends [OF one inb])
qed

lemma acks_advance:
  assumes "1 \<le> unat (blocknum s)" "128 * (unat (blocknum s) + k) \<le> length (buffer s)"
    and "unat (blocknum s) + k \<le> 255"
    and "state s \<noteq> TRANS_END" "state s \<noteq> TRANS_ABORT"
  shows "\<exists>s'. upload_loop (replicate k (r, Rx X_ACK)) s = Inr s' \<and>
     unat (blocknum s') = unat (blocknum s) + k \<and> buffer s' = buffer s \<and>
     state s' = state s \<and> length (uart_tx s') = length (uart_tx s) + 133 * k"
  using assms
proof (induction k arbitrary: s)
  case 0
  then show ?case by simp
next
  case (Suc k)
  let ?p = "take 128 (drop (128 * unat (blocknum s)) (buffer s))"
  let ?s1 = "s\<lparr>blocknum := blocknum s + 1, current_crc := crc16 ?p,
            uart_tx := uart_tx s @ frame (blocknum s + 1) ?p\<rparr>"
  have lt: "unat (blocknum s) < 255" using Suc.prems(3) by simp
  then have suc: "unat (blocknum s + 1) = Suc (unat (blocknum s))"
    by (simp add: unat_word_ariths)
  have body: "upload_body r (Rx X_ACK) s = Inr ?s1"
    using Suc.prems(1,2) lt by (intro upload_ack_next) simp_all
  have lp: "length ?p = 128" using Suc.prems(2) by simp
  have "\<exists>s'. upload_loop (replicate k (r, Rx X_ACK)) ?s1 = Inr s' \<and>
     unat (blocknum s') = unat (blocknum ?s1) + k \<and> buffer s' = buffer ?s1 \<and>
     state s' = state ?s1 \<and> length (uart_tx s') = length (uart_tx ?s1) + 133 * k"
    using Suc.prems suc by (intro Suc.IH) simp_all
  then obtain s' where run: "upload_loop (replicate k (r, Rx X_ACK)) ?s1 = Inr s'"
    and bn: "unat (blocknum s') = unat (blocknum ?s1) + k" and buf: "buffer s' = buffer ?s1"
    and st: "state s' = state ?s1"
    and len: "length (uart_tx s') = length (uart_tx ?s1) + 133 * k"
    by blast
  have "upload_loop (replicate (Suc k) (r, Rx X_ACK)) s = Inr s'"
    using body run Suc.prems(4,5) by simp
  moreover have "unat (blocknum s') = unat (blocknum s) + Suc k" using bn suc by simp
  moreover have "length (uart_tx s') = length (uart_tx s) + 133 * Suc k"
    using len lp by (simp add: frame_length del: length_take)
  ultimately show ?case using buf st by simp
qed

lemma xmod_sendblock_block_0:
  assumes "blocknum s = 0" "128 \<le> length (buffer s)" "length (buffer s) \<le> 65408"
  shows "xmod_sendblock r s =
     Inr (r, s\<lparr>current_crc := crc16 (take 128 (buffer s)),
               uart_tx := uart_tx s @ frame 0 (take 128 (buffer s))\<rparr>)"
proof -
  let ?s2 = "(uart_putc (0xFF - blocknum s) (uart_putc (blocknum s) (uart_putc X_SOH s)))\<lparr>current_crc := 0\<rparr>"
  have "sendblock_loop 0 0 ?s2 = Inr (?s2\<lparr>current_crc := foldl xmod_crc_update (current_crc ?s2)
                              (take (128 - unat (0::u8)) (drop (unat (0::u8) + unat (0 :: u16)) (buffer ?s2))),
            uart_tx := uart_tx ?s2 @ take (128 - unat (0::u8)) (drop (unat (0::u8) + unat (0 :: u16)) (buffer ?s2))\<rparr>)"
    using assms(2) by (intro sendblock_loop_sends) (simp_all add: uart_putc_def)
  then show ?thesis using assms
    by (simp add: xmod_sendblock_def Let_def XMOD_BUFFSIZE_def uart_putc_def frame_def crc16_def
          minus_128 del: sendblock_loop.simps)
qed

lemma upload_ack_wraps:
  assumes "blocknum s = 255" "128 \<le> length (buffer s)" "length (buffer s) \<le> 65408"
  shows "upload_body r (Rx X_ACK) s =
     Inr (s\<lparr>blocknum := 0, current_crc := crc16 (take 128 (buffer s)),
            uart_tx := uart_tx s @ frame 0 (take 128 (buffer s))\<rparr>)"
proof -
  have ack: "X_ACK \<noteq> (0x43 :: u8)" by (simp add: X_ACK_def)
  have "xmod_sendblock r (s\<lparr>blocknum := 0\<rparr>) =
     Inr (r, (s\<lparr>blocknum := 0\<rparr>)\<lparr>current_crc := crc16 (take 128 (buffer (s\<lparr>blocknum := 0\<rparr>))),
               uart_tx := uart_tx (s\<lparr>blocknum := 0\<rparr>) @ frame 0 (take 128 (buffer (s\<lparr>blocknum := 0\<rparr>)))\<rparr>)"
    using assms(2,3) by (intro xmod_sendblock_block_0) simp_all
  moreover have "blocknum s + 1 = 0" using assms(1) by simp
  ultimately show ?thesis using ack
    by (simp add: upload_body_def XMOD_BUFFSIZE_def)
qed

lemma upload_wraps_at_32640:
  "\<exists>s. xmod_upload (replicate 255 (TRANS_AWAIT, Rx X_ACK)) (power_on (replicate 32640 0)) = Inr s \<and>
     state s = TRANS_AWAIT \<and> blocknum s = 0 \<and>
     drop (254 * 133) (uart_tx s) = frame 0 (replicate 128 0)"
proof -
  let ?ev = "(TRANS_AWAIT, Rx X_ACK)"
  let ?s0 = "upload_init (power_on (replicate 32640 0))"
  have "\<exists>s'. upload_loop (replicate 254 ?ev) ?s0 = Inr s' \<and>
     unat (blocknum s') = unat (blocknum ?s0) + 254 \<and> buffer s' = buffer ?s0 \<and>
     state s' = state ?s0 \<and> length (uart_tx s') = length (uart_tx ?s0) + 133 * 254"
    by (intro acks_advance) (simp_all add: upload_init_def power_on_def)
  then obtain s' where run: "upload_loop (replicate 254 ?ev) ?s0 = Inr s'"
    and bn: "unat (blocknum s') = 255" and buf: "buffer s' = replicate 32640 0"
    and st: "state s' = TRANS_AWAIT" and len: "length (uart_tx s') = 254 * 133"
    by (auto simp: upload_init_def power_on_def)
  have "unat (blocknum s') = unat (255 :: u8)" using bn by simp
  then have b255: "blocknum s' = 255" by (simp only: word_unat_eq_iff)
  have last: "upload_body TRANS_AWAIT (Rx X_ACK) s' =
     Inr (s'\<lparr>blocknum := 0, current_crc := crc16 (take 128 (buffer s')),
            uart_tx := uart_tx s' @ frame 0 (take 128 (buffer s'))\<rparr>)"
    using b255 buf by (intro upload_ack_wraps) simp_all
  have "replicate 255 ?ev = replicate 254 ?ev @ [?ev]"
    by (simp only: replicate_append_same) (simp add: numeral_eq_Suc)
  moreover have "upload_loop (replicate 254 ?ev @ [?ev]) ?s0 = upload_loop [?ev] s'"
    using run st by (intro upload_loop_resume) simp_all
  ultimately have "upload_loop (replicate 255 ?ev) ?s0 = upload_loop [?ev] s'"
    by (simp only:)
  then show ?thesis using last st buf len by (simp add: xmod_upload_def)
qed

text \<open>
  C6 as stated fails when the buffer holds 255 blocks: the block number is 8 bits wide
  and the code tests it for equality with \<^verbatim>\<open>XMOD_BUFFSIZE / 128 + 1\<close>. Over 32640 bytes
  the 255th ACK takes the block number from 255 to 0, which is not 256: no
  end-of-transmission is sent, the loop is not in \<^verbatim>\<open>END\<close>, and the last thing sent is a
  frame numbered 0 that carries the first 128 bytes of the buffer.
\<close>

theorem upload_block_number_wraps:
  "map_sum id state
     (xmod_upload (replicate 255 (TRANS_AWAIT, Rx X_ACK)) (power_on (replicate 32640 0))) =
     Inr TRANS_AWAIT \<and>
   map_sum id blocknum
     (xmod_upload (replicate 255 (TRANS_AWAIT, Rx X_ACK)) (power_on (replicate 32640 0))) =
     Inr 0 \<and>
   map_sum id (drop (254 * 133) \<circ> uart_tx)
     (xmod_upload (replicate 255 (TRANS_AWAIT, Rx X_ACK)) (power_on (replicate 32640 0))) =
     Inr (frame 0 (replicate 128 0))"
  using upload_wraps_at_32640 by auto

section \<open>The result of \<^verbatim>\<open>xmod_sendblock\<close>\<close>

lemma xmod_sendblock_result:
  "xmod_sendblock r s = Inr (st, s') \<Longrightarrow> st = r"
  by (auto simp: xmod_sendblock_def Let_def split: sum.splits)

text \<open>
  C9. \<^verbatim>\<open>xmod_sendblock\<close> is declared to return a \<^verbatim>\<open>STATE\<close> and has no \<^verbatim>\<open>return\<close>
  statement, and \<^verbatim>\<open>xmod_upload\<close> stores the result of the call in the session state on
  the handshake byte \<open>C\<close>. The state after a handshake is therefore whatever value \<open>r\<close>
  the call happens to yield, not a state chosen by the protocol: with \<^verbatim>\<open>TRANS_END\<close> the
  upload ends right after block 1 and ignores the rest of the line, with \<^verbatim>\<open>TRANS_RUN\<close>
  it goes on.
\<close>

theorem sendblock_result_unspecified:
  "(\<forall>st s'. xmod_sendblock r s = Inr (st, s') \<longrightarrow> st = r) \<and>
   (128 \<le> XMOD_BUFFSIZE s \<longrightarrow>
      (\<exists>s'. upload_body r (Rx 0x43) s = Inr s' \<and> state s' = r) \<and>
      xmod_upload ((TRANS_END, Rx 0x43) # es) s =
        Inr (s\<lparr>last_succeeded_block := 0, blocknum := 1,
               current_crc := crc16 (take 128 (buffer s)),
               uart_tx := uart_tx s @ frame 1 (take 128 (buffer s)), state := TRANS_END\<rparr>) \<and>
      xmod_upload ((TRANS_RUN, Rx 0x43) # es) s =
        upload_loop es
          (s\<lparr>last_succeeded_block := 0, blocknum := 1,
             current_crc := crc16 (take 128 (buffer s)),
             uart_tx := uart_tx s @ frame 1 (take 128 (buffer s)), state := TRANS_RUN\<rparr>))"
proof (intro conjI impI allI)
  fix st s'
  assume "xmod_sendblock r s = Inr (st, s')"
  then show "st = r" by (rule xmod_sendblock_result)
next
  assume "128 \<le> XMOD_BUFFSIZE s"
  then show "\<exists>s'. upload_body r (Rx 0x43) s = Inr s' \<and> state s' = r"
    by (simp add: upload_handshake XMOD_BUFFSIZE_def)
next
  assume "128 \<le> XMOD_BUFFSIZE s"
  then have "128 \<le> length (buffer (upload_init s))"
    by (simp add: XMOD_BUFFSIZE_def upload_init_def)
  then show "xmod_upload ((TRANS_END, Rx 0x43) # es) s =
        Inr (s\<lparr>last_succeeded_block := 0, blocknum := 1,
               current_crc := crc16 (take 128 (buffer s)),
               uart_tx := uart_tx s @ frame 1 (take 128 (buffer s)), state := TRANS_END\<rparr>)"
    by (simp add: xmod_upload_def upload_handshake) (simp add: upload_init_def)
next
  assume "128 \<le> XMOD_BUFFSIZE s"
  then have "128 \<le> length (buffer (upload_init s))"
    by (simp add: XMOD_BUFFSIZE_def upload_init_def)
  then show "xmod_upload ((TRANS_RUN, Rx 0x43) # es) s =
        upload_loop es
          (s\<lparr>last_succeeded_block := 0, blocknum := 1,
             current_crc := crc16 (take 128 (buffer s)),
             uart_tx := uart_tx s @ frame 1 (take 128 (buffer s)), state := TRANS_RUN\<rparr>)"
    by (simp add: xmod_upload_def upload_handshake) (simp add: upload_init_def)
qed

theorem sendblock_result_unspecified_witness:
  "128 \<le> XMOD_BUFFSIZE (power_on (replicate 256 0)) \<and>
   (\<exists>s'. upload_body TRANS_CRC2 (Rx 0x43) (power_on (replicate 256 0)) = Inr s' \<and>
         state s' = TRANS_CRC2) \<and>
   xmod_upload ((TRANS_END, Rx 0x43) # [(TRANS_RUN, Rx 6)]) (power_on (replicate 256 0)) =
     Inr ((power_on (replicate 256 0))
            \<lparr>blocknum := 1, current_crc := crc16 (replicate 128 0),
             uart_tx := frame 1 (replicate 128 0), state := TRANS_END\<rparr>) \<and>
   xmod_upload ((TRANS_RUN, Rx 0x43) # []) (power_on (replicate 256 0)) =
     Inr ((power_on (replicate 256 0))
            \<lparr>blocknum := 1, current_crc := crc16 (replicate 128 0),
             uart_tx := frame 1 (replicate 128 0), state := TRANS_RUN\<rparr>)"
  using sendblock_result_unspecified [of TRANS_CRC2 "power_on (replicate 256 0)" "[(TRANS_RUN, Rx 6)]"]
    sendblock_result_unspecified [of TRANS_RUN "power_on (replicate 256 0)" "[]"]
  by (simp add: power_on_def XMOD_BUFFSIZE_def)

section \<open>Whole frames\<close>

lemma crc_octets:
  "push_bit 8 (ucast (ucast (drop_bit 8 w AND 0xFF :: u16) :: u8)) OR
   ucast (ucast (w AND 0xFF) :: u8) = (w :: u16)"
proof -
  have m: "(0xFF :: u16) = mask 8" by (simp add: mask_eq_exp_minus_1)
  show ?thesis unfolding m by (rule bit_word_eqI) (auto simp: bit_simps)
qed

lemma receive_frame:
  assumes "state s = TRANS_AWAIT" "length p = 128"
    and "slot = (if n = last_succeeded_block s then mempos s - 128 else mempos s)"
    and "unat slot + 128 \<le> length (buffer s)" "length (buffer s) < 65536"
  shows "download_loop (map Rx (frame n p)) s =
     Inr (s\<lparr>state := TRANS_AWAIT, counter := 128, current_crc := crc16 p,
            crc_recv := crc16 p, blocknum := n,
            buffer := take (unat slot) (buffer s) @ p @ drop (unat slot + 128) (buffer s),
            mempos := slot + 128, last_succeeded_block := n,
            uart_tx := uart_tx s @ [X_ACK]\<rparr>)"
  unfolding frame_def
  by (subst receive_block [OF assms]) (simp add: crc_octets)

lemma run_payload_overrun:
  assumes "state s = TRANS_RUN" "counter s + int (length p) \<le> 128"
    and "unat (mempos s) \<le> length (buffer s)"
    and "length (buffer s) < unat (mempos s) + length p" "length (buffer s) < 65536"
  shows "download_loop (map Rx p @ es) s = Inl (OutOfBounds (length (buffer s)))"
  using assms
proof (induction p arbitrary: s)
  case Nil
  then show ?case by simp
next
  case (Cons x p)
  show ?case
  proof (cases "unat (mempos s) = length (buffer s)")
    case True
    then have "handlebyte x s = Inl (OutOfBounds (unat (mempos s)))"
      using Cons.prems(1) by (intro handlebyte_RUN_fault) simp_all
    then show ?thesis using True by (simp add: download_body_def)
  next
    case False
    then have inb: "unat (mempos s) < length (buffer s)" using Cons.prems(3) by simp
    then have p: "p \<noteq> []" using Cons.prems(4) by auto
    then have cnt: "counter s + 1 \<noteq> 128" using Cons.prems(2) by (cases p) auto
    let ?s1 = "s\<lparr>counter := counter s + 1,
            current_crc := xmod_crc_update (current_crc s) x,
            buffer := (buffer s)[unat (mempos s) := x],
            mempos := mempos s + 1, state := TRANS_RUN\<rparr>"
    have body: "download_body (Rx x) s = Inr ?s1"
      using Cons.prems(1) inb cnt by (simp add: download_body_def handlebyte_RUN)
    have suc: "unat (mempos s + 1) = Suc (unat (mempos s))"
      using inb Cons.prems(5) by (simp add: unat_word_ariths)
    have "download_loop (map Rx p @ es) ?s1 = Inl (OutOfBounds (length (buffer ?s1)))"
      using Cons.prems inb suc by (intro Cons.IH) simp_all
    then show ?thesis using body by simp
  qed
qed

section \<open>The round trip through the shared buffer\<close>

lemma slice_written:
  "c + length p \<le> length xs \<Longrightarrow> take (length p) (drop c (take c xs @ p @ drop (c + length p) xs)) = p"
  by simp

lemma round_trip:
  assumes "state s = TRANS_AWAIT" "length p = 128" "1 \<le> unat n"
    and "128 * unat n \<le> length (buffer s)" "length (buffer s) < 65536"
    and "slot = (if n = last_succeeded_block s then mempos s - 128 else mempos s)"
    and "unat slot = 128 * (unat n - 1)"
  shows "receive_transmit r (frame n p) s = Inr (frame n p)"
proof -
  let ?buf = "take (unat slot) (buffer s) @ p @ drop (unat slot + 128) (buffer s)"
  let ?s' = "s\<lparr>state := TRANS_AWAIT, counter := 128, current_crc := crc16 p,
            crc_recv := crc16 p, blocknum := n, buffer := ?buf,
            mempos := slot + 128, last_succeeded_block := n,
            uart_tx := uart_tx s @ [X_ACK]\<rparr>"
  have inb: "unat slot + 128 \<le> length (buffer s)" using assms(3,4,7) by simp
  have rcv: "download_loop (map Rx (frame n p)) s = Inr ?s'"
    using assms(1,2,6) inb assms(5) by (rule receive_frame)
  have "unat slot + length p \<le> length (buffer s)" using inb assms(2) by simp
  then have "take (length p) (drop (unat slot) (take (unat slot) (buffer s) @ p @ drop (unat slot + length p) (buffer s))) = p"
    by (rule slice_written)
  then have sl: "take 128 (drop (128 * (unat n - 1)) ?buf) = p"
    using assms(2,7) by simp
  have one: "1 \<le> unat (blocknum ?s')" using assms(3) by simp
  have cap: "128 * unat (blocknum ?s') \<le> length (buffer ?s')" using assms(2,4) inb by simp
  have snd: "xmod_sendblock r ?s' =
     Inr (r, ?s'\<lparr>current_crc := crc16 (take 128 (drop (128 * (unat (blocknum ?s') - 1)) (buffer ?s'))),
               uart_tx := uart_tx ?s' @
                 frame (blocknum ?s') (take 128 (drop (128 * (unat (blocknum ?s') - 1)) (buffer ?s')))\<rparr>)"
    using one cap by (rule xmod_sendblock_sends)
  have snd2: "xmod_sendblock r ?s' =
     Inr (r, ?s'\<lparr>current_crc := crc16 p, uart_tx := uart_tx s @ [X_ACK] @ frame n p\<rparr>)"
    unfolding snd using sl by simp
  show ?thesis by (simp only: receive_transmit_def rcv sum.case snd2 prod.case) simp
qed

text \<open>
  C5, as amended. For every valid frame with block number \<open>n\<close> between 1 and
  \<^verbatim>\<open>XMOD_BUFFSIZE\<close> / 128, received in \<^verbatim>\<open>AWAIT\<close> when the slot it will be written to (the
  cursor, or the cursor less 128 when \<open>n\<close> is the last committed block number) starts at
  \<open>128 * (n - 1)\<close>: feeding the frame through the receive loop and then calling the
  transmit driver sends the very same frame, so the same 128 payload bytes.
\<close>

theorem receive_transmit_round_trip:
  assumes "state s = TRANS_AWAIT" "length p = 128" "1 \<le> unat n"
    and "128 * unat n \<le> XMOD_BUFFSIZE s" "XMOD_BUFFSIZE s < 65536"
    and "unat (if n = last_succeeded_block s then mempos s - 128 else mempos s) =
         128 * (unat n - 1)"
  shows "receive_transmit r (frame n p) s = Inr (frame n p)"
  using assms unfolding XMOD_BUFFSIZE_def by (intro round_trip [OF _ _ _ _ _ refl]) simp_all

theorem receive_transmit_round_trip_witness:
  "state (download_init (power_on (replicate 256 0))) = TRANS_AWAIT \<and>
   length (replicate 128 (1 :: u8)) = 128 \<and> 1 \<le> unat (1 :: u8) \<and>
   128 * unat (1 :: u8) \<le> XMOD_BUFFSIZE (download_init (power_on (replicate 256 0))) \<and>
   XMOD_BUFFSIZE (download_init (power_on (replicate 256 0))) < 65536 \<and>
   unat (if 1 = last_succeeded_block (download_init (power_on (replicate 256 0)))
         then mempos (download_init (power_on (replicate 256 0))) - 128
         else mempos (download_init (power_on (replicate 256 0)))) = 128 * (unat (1 :: u8) - 1) \<and>
   receive_transmit TRANS_AWAIT (frame 1 (replicate 128 1))
     (download_init (power_on (replicate 256 0))) = Inr (frame 1 (replicate 128 1))"
  using receive_transmit_round_trip [of "download_init (power_on (replicate 256 0))"
      "replicate 128 1" 1 TRANS_AWAIT]
  by (simp add: power_on_def XMOD_BUFFSIZE_def download_init_def uart_putc_def)

lemma round_trip_misplaced:
  "receive_transmit r (frame 2 (replicate 128 1)) (download_init (power_on (replicate 256 0))) =
     Inr (frame 2 (replicate 128 0))"
proof -
  let ?s = "download_init (power_on (replicate 256 0))"
  let ?p = "replicate 128 (1 :: u8)"
  let ?s' = "?s\<lparr>state := TRANS_AWAIT, counter := 128, current_crc := crc16 ?p,
            crc_recv := crc16 ?p, blocknum := 2,
            buffer := take (unat (0 :: u16)) (buffer ?s) @ ?p @ drop (unat (0 :: u16) + 128) (buffer ?s),
            mempos := 0 + 128, last_succeeded_block := 2,
            uart_tx := uart_tx ?s @ [X_ACK]\<rparr>"
  have rcv: "download_loop (map Rx (frame 2 ?p)) ?s = Inr ?s'"
    by (rule receive_frame) (simp_all add: download_init_def power_on_def uart_putc_def)
  have snd: "xmod_sendblock r ?s' =
     Inr (r, ?s'\<lparr>current_crc := crc16 (take 128 (drop (128 * (unat (blocknum ?s') - 1)) (buffer ?s'))),
               uart_tx := uart_tx ?s' @
                 frame (blocknum ?s') (take 128 (drop (128 * (unat (blocknum ?s') - 1)) (buffer ?s')))\<rparr>)"
    by (rule xmod_sendblock_sends) (simp_all add: download_init_def power_on_def uart_putc_def)
  show ?thesis
    by (simp only: receive_transmit_def rcv sum.case snd prod.case)
       (simp add: download_init_def power_on_def uart_putc_def)
qed

text \<open>
  C5 as stated fails: the receiver stores a payload at its cursor, whatever the block
  number, and the transmit driver reads block \<open>n\<close> at \<open>128 * (n - 1)\<close>. A valid frame
  numbered 2 that arrives first in a download is stored at offset 0, and transmitting
  block 2 sends the bytes at offset 128.
\<close>

theorem round_trip_fails_out_of_sequence:
  "receive_transmit TRANS_AWAIT (frame 2 (replicate 128 1))
     (download_init (power_on (replicate 256 0))) = Inr (frame 2 (replicate 128 0)) \<and>
   take 128 (drop 3 (frame 2 (replicate 128 0))) \<noteq> replicate 128 1"
proof
  show "receive_transmit TRANS_AWAIT (frame 2 (replicate 128 1))
     (download_init (power_on (replicate 256 0))) = Inr (frame 2 (replicate 128 0))"
    by (rule round_trip_misplaced)
  show "take 128 (drop 3 (frame 2 (replicate 128 0))) \<noteq> replicate 128 1"
    by (simp add: frame_def)
qed

section \<open>Duplicate frames\<close>

lemma download_loop_seq:
  assumes "download_loop es1 s = Inr s'" "state s' = TRANS_AWAIT"
  shows "download_loop (es1 @ es2) s = download_loop es2 s'"
  using assms by (simp add: download_loop_append)

lemma rewind_in_range:
  "128 \<le> unat (c :: u16) \<Longrightarrow> unat (c - 128) = unat c - 128"
  by (subst unat_sub) (simp_all add: word_le_nat_alt)

lemma duplicate_frame:
  assumes "state s = TRANS_AWAIT" "length p = 128" "n = last_succeeded_block s"
    and "128 \<le> unat (mempos s)" "unat (mempos s) \<le> length (buffer s)"
    and "length (buffer s) < 65536"
  shows "download_loop (map Rx (frame n p)) s =
     Inr (s\<lparr>counter := 128, current_crc := crc16 p, crc_recv := crc16 p, blocknum := n,
            buffer := take (unat (mempos s) - 128) (buffer s) @ p @ drop (unat (mempos s)) (buffer s),
            uart_tx := uart_tx s @ [X_ACK]\<rparr>)"
proof -
  have sl: "unat (mempos s - 128) = unat (mempos s) - 128" using assms(4) by (rule rewind_in_range)
  have "download_loop (map Rx (frame n p)) s =
     Inr (s\<lparr>state := TRANS_AWAIT, counter := 128, current_crc := crc16 p,
            crc_recv := crc16 p, blocknum := n,
            buffer := take (unat (mempos s - 128)) (buffer s) @ p @ drop (unat (mempos s - 128) + 128) (buffer s),
            mempos := mempos s - 128 + 128, last_succeeded_block := n,
            uart_tx := uart_tx s @ [X_ACK]\<rparr>)"
    using assms sl by (intro receive_frame) simp_all
  then show ?thesis using assms(1,3,4) sl by simp
qed





section \<open>A corrupted frame and its retransmission\<close>

lemma crc_update_0_0: "xmod_crc_update 0 0 = 0"
  by (simp add: xmod_crc_update_def crc_loop_funpow funpow8 crc_round_def del: crc_loop.simps)

lemma crc16_zeros: "crc16 (replicate n 0) = 0"
  unfolding crc16_def by (induction n) (simp_all add: crc_update_0_0)

lemma nak_then_retransmit:
  assumes "state s = TRANS_AWAIT" "length p = 128" "length q = 128"
    and "n \<noteq> last_succeeded_block s"
    and "unat (mempos s) + 128 \<le> length (buffer s)" "length (buffer s) < 65536"
    and "push_bit 8 (ucast h) OR ucast l \<noteq> crc16 p"
  shows "download_loop (map Rx ([X_SOH, n, 0xFF - n] @ p @ [h, l])) s =
           Inr (s\<lparr>counter := 128, current_crc := crc16 p,
                  crc_recv := push_bit 8 (ucast h) OR ucast l, blocknum := n,
                  buffer := take (unat (mempos s)) (buffer s) @ p @
                            drop (unat (mempos s) + 128) (buffer s),
                  uart_tx := uart_tx s @ [X_NAK]\<rparr>)"
    and "download_loop (map Rx (([X_SOH, n, 0xFF - n] @ p @ [h, l]) @ frame n q)) s =
           Inr (s\<lparr>counter := 128, current_crc := crc16 q, crc_recv := crc16 q, blocknum := n,
                  buffer := take (unat (mempos s)) (buffer s) @ q @
                            drop (unat (mempos s) + 128) (buffer s),
                  mempos := mempos s + 128, last_succeeded_block := n,
                  uart_tx := uart_tx s @ [X_NAK, X_ACK]\<rparr>)"
proof -
  let ?c = "unat (mempos s)"
  let ?s1 = "s\<lparr>counter := 128, current_crc := crc16 p,
                  crc_recv := push_bit 8 (ucast h) OR ucast l, blocknum := n,
                  buffer := take ?c (buffer s) @ p @ drop (?c + 128) (buffer s),
                  uart_tx := uart_tx s @ [X_NAK]\<rparr>"
  have "download_loop (map Rx ([X_SOH, n, 0xFF - n] @ p @ [h, l])) s =
     Inr (s\<lparr>state := TRANS_AWAIT, counter := 128, current_crc := crc16 p,
            crc_recv := push_bit 8 (ucast h) OR ucast l, blocknum := n,
            buffer := take (unat (mempos s)) (buffer s) @ p @ drop (unat (mempos s) + 128) (buffer s),
            mempos := (if push_bit 8 (ucast h) OR ucast l = crc16 p then mempos s + 128 else mempos s),
            last_succeeded_block :=
              (if push_bit 8 (ucast h) OR ucast l = crc16 p then n else last_succeeded_block s),
            uart_tx := uart_tx s @
              [if push_bit 8 (ucast h) OR ucast l = crc16 p then X_ACK else X_NAK]\<rparr>)"
    using assms(1,2,4,5,6) by (intro receive_block) simp_all
  then show one: "download_loop (map Rx ([X_SOH, n, 0xFF - n] @ p @ [h, l])) s = Inr ?s1"
    using assms(1,7) by simp
  have len1: "length (buffer ?s1) = length (buffer s)" using assms(2,5) by simp
  have "download_loop (map Rx (frame n q)) ?s1 =
     Inr (?s1\<lparr>state := TRANS_AWAIT, counter := 128, current_crc := crc16 q,
            crc_recv := crc16 q, blocknum := n,
            buffer := take (unat (mempos s)) (buffer ?s1) @ q @ drop (unat (mempos s) + 128) (buffer ?s1),
            mempos := mempos s + 128, last_succeeded_block := n,
            uart_tx := uart_tx ?s1 @ [X_ACK]\<rparr>)"
    using assms(1,3,4,5,6) len1 by (intro receive_frame) (simp_all del: length_append)
  moreover have "take ?c (take ?c (buffer s) @ p @ drop (?c + 128) (buffer s)) = take ?c (buffer s)"
    using assms(5) by simp
  moreover have "drop (?c + 128) (take ?c (buffer s) @ p @ drop (?c + 128) (buffer s)) =
      drop (?c + 128) (buffer s)"
    using assms(2,5) by simp
  ultimately have two: "download_loop (map Rx (frame n q)) ?s1 =
       Inr (s\<lparr>counter := 128, current_crc := crc16 q, crc_recv := crc16 q, blocknum := n,
                  buffer := take ?c (buffer s) @ q @ drop (?c + 128) (buffer s),
                  mempos := mempos s + 128, last_succeeded_block := n,
                  uart_tx := uart_tx s @ [X_NAK, X_ACK]\<rparr>)"
    using assms(1) by simp
  have "download_loop (map Rx ([X_SOH, n, 0xFF - n] @ p @ [h, l]) @ map Rx (frame n q)) s =
      download_loop (map Rx (frame n q)) ?s1"
    using one assms(1) by (intro download_loop_seq) simp_all
  then show "download_loop (map Rx (([X_SOH, n, 0xFF - n] @ p @ [h, l]) @ frame n q)) s =
           Inr (s\<lparr>counter := 128, current_crc := crc16 q, crc_recv := crc16 q, blocknum := n,
                  buffer := take ?c (buffer s) @ q @ drop (?c + 128) (buffer s),
                  mempos := mempos s + 128, last_succeeded_block := n,
                  uart_tx := uart_tx s @ [X_NAK, X_ACK]\<rparr>)"
    using two by (simp only: map_append)
qed

lemma nak_of_duplicate:
  assumes "state s = TRANS_AWAIT" "length p = 128" "n = last_succeeded_block s"
    and "128 \<le> unat (mempos s)" "unat (mempos s) \<le> length (buffer s)"
    and "length (buffer s) < 65536"
    and "push_bit 8 (ucast h) OR ucast l \<noteq> crc16 p"
  shows "download_loop (map Rx ([X_SOH, n, 0xFF - n] @ p @ [h, l])) s =
           Inr (s\<lparr>counter := 128, current_crc := crc16 p,
                  crc_recv := push_bit 8 (ucast h) OR ucast l, blocknum := n,
                  buffer := take (unat (mempos s) - 128) (buffer s) @ p @
                            drop (unat (mempos s)) (buffer s),
                  mempos := mempos s - 128,
                  uart_tx := uart_tx s @ [X_NAK]\<rparr>)"
proof -
  have sl: "unat (mempos s - 128) = unat (mempos s) - 128" using assms(4) by (rule rewind_in_range)
  have "download_loop (map Rx ([X_SOH, n, 0xFF - n] @ p @ [h, l])) s =
     Inr (s\<lparr>state := TRANS_AWAIT, counter := 128, current_crc := crc16 p,
            crc_recv := push_bit 8 (ucast h) OR ucast l, blocknum := n,
            buffer := take (unat (mempos s - 128)) (buffer s) @ p @ drop (unat (mempos s - 128) + 128) (buffer s),
            mempos := (if push_bit 8 (ucast h) OR ucast l = crc16 p then mempos s - 128 + 128 else mempos s - 128),
            last_succeeded_block :=
              (if push_bit 8 (ucast h) OR ucast l = crc16 p then n else last_succeeded_block s),
            uart_tx := uart_tx s @
              [if push_bit 8 (ucast h) OR ucast l = crc16 p then X_ACK else X_NAK]\<rparr>)"
    using assms(1,2,3,4,5,6) sl by (intro receive_block) simp_all
  then show ?thesis using assms(1,4,7) sl by simp
qed

text \<open>
  C2, as amended. In state \<^verbatim>\<open>CRC2\<close>, when the two CRC bytes received do not equal the
  computed accumulator, the handler emits NAK, rewinds the write cursor by 128, leaves
  the last committed block number unchanged and returns to \<^verbatim>\<open>AWAIT\<close>. When the corrupted
  frame carries a block number \<open>n\<close> other than the last committed one and its payload
  fits the buffer at the cursor, the cursor is back where the frame started, and a
  retransmission of block \<open>n\<close> with matching CRC then commits its payload once: the
  payload is in the slot at the old cursor, the cursor has advanced by 128, the last
  committed block number is \<open>n\<close>, and NAK then ACK have been emitted.
\<close>

theorem nak_then_retransmission_commits:
  "(state t = TRANS_CRC2 \<and> crc_recv t OR ucast d \<noteq> current_crc t \<longrightarrow>
      handlebyte d t =
        Inr (TRANS_AWAIT, t\<lparr>crc_recv := crc_recv t OR ucast d, uart_tx := uart_tx t @ [X_NAK],
                             mempos := mempos t - 128\<rparr>)) \<and>
   (state s = TRANS_AWAIT \<and> length p = 128 \<and> length q = 128 \<and>
    n \<noteq> last_succeeded_block s \<and>
    unat (mempos s) + 128 \<le> XMOD_BUFFSIZE s \<and> XMOD_BUFFSIZE s < 65536 \<and>
    push_bit 8 (ucast h) OR ucast l \<noteq> crc16 p \<longrightarrow>
      download_loop (map Rx ([X_SOH, n, 0xFF - n] @ p @ [h, l])) s =
        Inr (s\<lparr>counter := 128, current_crc := crc16 p,
               crc_recv := push_bit 8 (ucast h) OR ucast l, blocknum := n,
               buffer := take (unat (mempos s)) (buffer s) @ p @
                         drop (unat (mempos s) + 128) (buffer s),
               uart_tx := uart_tx s @ [X_NAK]\<rparr>) \<and>
      download_loop (map Rx (([X_SOH, n, 0xFF - n] @ p @ [h, l]) @ frame n q)) s =
        Inr (s\<lparr>counter := 128, current_crc := crc16 q, crc_recv := crc16 q, blocknum := n,
               buffer := take (unat (mempos s)) (buffer s) @ q @
                         drop (unat (mempos s) + 128) (buffer s),
               mempos := mempos s + 128, last_succeeded_block := n,
               uart_tx := uart_tx s @ [X_NAK, X_ACK]\<rparr>))"
proof (intro conjI impI)
  assume "state t = TRANS_CRC2 \<and> crc_recv t OR ucast d \<noteq> current_crc t"
  then show "handlebyte d t =
        Inr (TRANS_AWAIT, t\<lparr>crc_recv := crc_recv t OR ucast d, uart_tx := uart_tx t @ [X_NAK],
                             mempos := mempos t - 128\<rparr>)"
    by (simp add: handlebyte_def uart_putc_def Let_def)
next
  assume h: "state s = TRANS_AWAIT \<and> length p = 128 \<and> length q = 128 \<and>
    n \<noteq> last_succeeded_block s \<and>
    unat (mempos s) + 128 \<le> XMOD_BUFFSIZE s \<and> XMOD_BUFFSIZE s < 65536 \<and>
    push_bit 8 (ucast h) OR ucast l \<noteq> crc16 p"
  then show "download_loop (map Rx ([X_SOH, n, 0xFF - n] @ p @ [h, l])) s =
        Inr (s\<lparr>counter := 128, current_crc := crc16 p,
               crc_recv := push_bit 8 (ucast h) OR ucast l, blocknum := n,
               buffer := take (unat (mempos s)) (buffer s) @ p @
                         drop (unat (mempos s) + 128) (buffer s),
               uart_tx := uart_tx s @ [X_NAK]\<rparr>)"
    unfolding XMOD_BUFFSIZE_def by (intro nak_then_retransmit(1) [where q = q]) simp_all
  from h show "download_loop (map Rx (([X_SOH, n, 0xFF - n] @ p @ [h, l]) @ frame n q)) s =
        Inr (s\<lparr>counter := 128, current_crc := crc16 q, crc_recv := crc16 q, blocknum := n,
               buffer := take (unat (mempos s)) (buffer s) @ q @
                         drop (unat (mempos s) + 128) (buffer s),
               mempos := mempos s + 128, last_succeeded_block := n,
               uart_tx := uart_tx s @ [X_NAK, X_ACK]\<rparr>)"
    unfolding XMOD_BUFFSIZE_def by (intro nak_then_retransmit(2)) simp_all
qed

theorem nak_then_retransmission_commits_witness:
  "state ((power_on (replicate 256 0))\<lparr>state := TRANS_CRC2, current_crc := 5\<rparr>) = TRANS_CRC2 \<and>
   crc_recv ((power_on (replicate 256 0))\<lparr>state := TRANS_CRC2, current_crc := 5\<rparr>) OR ucast (0 :: u8)
     \<noteq> current_crc ((power_on (replicate 256 0))\<lparr>state := TRANS_CRC2, current_crc := 5\<rparr>) \<and>
   handlebyte 0 ((power_on (replicate 256 0))\<lparr>state := TRANS_CRC2, current_crc := 5\<rparr>) =
     Inr (TRANS_AWAIT, (power_on (replicate 256 0))
            \<lparr>state := TRANS_CRC2, current_crc := 5, uart_tx := [X_NAK], mempos := 65408\<rparr>) \<and>
   state (power_on (replicate 256 0)) = TRANS_AWAIT \<and>
   length (replicate 128 (0 :: u8)) = 128 \<and> length (replicate 128 (7 :: u8)) = 128 \<and>
   (1 :: u8) \<noteq> last_succeeded_block (power_on (replicate 256 0)) \<and>
   unat (mempos (power_on (replicate 256 0))) + 128 \<le> XMOD_BUFFSIZE (power_on (replicate 256 0)) \<and>
   XMOD_BUFFSIZE (power_on (replicate 256 0)) < 65536 \<and>
   push_bit 8 (ucast (0 :: u8)) OR ucast (1 :: u8) \<noteq> crc16 (replicate 128 0) \<and>
   download_loop (map Rx ([X_SOH, 1, 0xFF - 1] @ replicate 128 0 @ [0, 1])) (power_on (replicate 256 0)) =
     Inr ((power_on (replicate 256 0))
            \<lparr>counter := 128, crc_recv := 1, blocknum := 1, uart_tx := [X_NAK]\<rparr>) \<and>
   download_loop (map Rx (([X_SOH, 1, 0xFF - 1] @ replicate 128 0 @ [0, 1]) @ frame 1 (replicate 128 7)))
       (power_on (replicate 256 0)) =
     Inr ((power_on (replicate 256 0))
            \<lparr>counter := 128, current_crc := crc16 (replicate 128 7),
             crc_recv := crc16 (replicate 128 7), blocknum := 1,
             buffer := replicate 128 7 @ replicate 128 0, mempos := 128,
             last_succeeded_block := 1, uart_tx := [X_NAK, X_ACK]\<rparr>)"
  using nak_then_retransmission_commits [of
      "(power_on (replicate 256 0))\<lparr>state := TRANS_CRC2, current_crc := 5\<rparr>" 0
      "power_on (replicate 256 0)" "replicate 128 0" "replicate 128 7" 1 0 1]
  by (simp add: power_on_def XMOD_BUFFSIZE_def crc16_zeros minus_128 replicate_add [symmetric])

text \<open>
  C2 as stated fails when the corrupted frame repeats the last committed block number.
  Blocks 1 and 2 are committed (cursor 256); a corrupted copy of block 2 is rewound in
  \<^verbatim>\<open>BLOCK2\<close> and once more on NAK (cursor 128); the retransmission of block 2 is rewound
  again, lands in the slot of block 1, and leaves the cursor at 128.
\<close>

theorem corrupted_duplicate_then_retransmission:
  "xmod_download
     (map Rx (frame 1 (replicate 128 0xAA) @ frame 2 (replicate 128 0xBB)))
     (power_on (replicate 256 0)) =
   Inr \<lparr>state = TRANS_AWAIT, retrycount = 0, counter = 128,
        current_crc = crc16 (replicate 128 0xBB), crc_recv = crc16 (replicate 128 0xBB),
        mempos = 256, blocknum = 2, last_succeeded_block = 2,
        buffer = replicate 128 0xAA @ replicate 128 0xBB,
        uart_tx = [0x43, X_ACK, X_ACK]\<rparr> \<and>
   xmod_download
     (map Rx (frame 1 (replicate 128 0xAA) @ frame 2 (replicate 128 0xBB) @
              ([X_SOH, 2, 0xFD] @ replicate 128 0 @ [0, 1])))
     (power_on (replicate 256 0)) =
   Inr \<lparr>state = TRANS_AWAIT, retrycount = 0, counter = 128, current_crc = 0, crc_recv = 1,
        mempos = 128, blocknum = 2, last_succeeded_block = 2,
        buffer = replicate 128 0xAA @ replicate 128 0,
        uart_tx = [0x43, X_ACK, X_ACK, X_NAK]\<rparr> \<and>
   xmod_download
     (map Rx (frame 1 (replicate 128 0xAA) @ frame 2 (replicate 128 0xBB) @
              ([X_SOH, 2, 0xFD] @ replicate 128 0 @ [0, 1]) @
              frame 2 (replicate 128 0xBB)))
     (power_on (replicate 256 0)) =
   Inr \<lparr>state = TRANS_AWAIT, retrycount = 0, counter = 128,
        current_crc = crc16 (replicate 128 0xBB), crc_recv = crc16 (replicate 128 0xBB),
        mempos = 128, blocknum = 2, last_succeeded_block = 2,
        buffer = replicate 128 0xBB @ replicate 128 0,
        uart_tx = [0x43, X_ACK, X_ACK, X_NAK, X_ACK]\<rparr>"
proof -
  let ?A = "replicate 128 (0xAA :: u8)" and ?B = "replicate 128 (0xBB :: u8)"
  let ?Z = "replicate 128 (0 :: u8)"
  let ?s0 = "download_init (power_on (replicate 256 0))"
  let ?s1 = "\<lparr>state = TRANS_AWAIT, retrycount = 0, counter = 128,
        current_crc = crc16 ?A, crc_recv = crc16 ?A,
        mempos = 128, blocknum = 1, last_succeeded_block = 1,
        buffer = ?A @ ?Z, uart_tx = [0x43, X_ACK]\<rparr>"
  let ?s2 = "\<lparr>state = TRANS_AWAIT, retrycount = 0, counter = 128,
        current_crc = crc16 ?B, crc_recv = crc16 ?B,
        mempos = 256, blocknum = 2, last_succeeded_block = 2,
        buffer = ?A @ ?B, uart_tx = [0x43, X_ACK, X_ACK]\<rparr>"
  let ?s3 = "\<lparr>state = TRANS_AWAIT, retrycount = 0, counter = 128,
        current_crc = 0, crc_recv = 1,
        mempos = 128, blocknum = 2, last_succeeded_block = 2,
        buffer = ?A @ ?Z, uart_tx = [0x43, X_ACK, X_ACK, X_NAK]\<rparr>"
  let ?s4 = "\<lparr>state = TRANS_AWAIT, retrycount = 0, counter = 128,
        current_crc = crc16 ?B, crc_recv = crc16 ?B,
        mempos = 128, blocknum = 2, last_succeeded_block = 2,
        buffer = ?B @ ?Z, uart_tx = [0x43, X_ACK, X_ACK, X_NAK, X_ACK]\<rparr>"
  have r1: "download_loop (map Rx (frame 1 ?A)) ?s0 = Inr ?s1"
    by (subst receive_frame [where slot = 0])
       (simp_all add: download_init_def power_on_def uart_putc_def)
  have r2: "download_loop (map Rx (frame 2 ?B)) ?s1 = Inr ?s2"
    by (subst receive_frame [where slot = 128]) simp_all
  have r3: "download_loop (map Rx ([X_SOH, 2, 0xFF - 2] @ ?Z @ [0, 1])) ?s2 = Inr ?s3"
    by (subst nak_of_duplicate) (simp_all add: crc16_zeros)
  have r4: "download_loop (map Rx (frame 2 ?B)) ?s3 = Inr ?s4"
    by (subst duplicate_frame) simp_all
  have two: "download_loop (map Rx (frame 1 ?A) @ map Rx (frame 2 ?B)) ?s0 = Inr ?s2"
    by (simp only: download_loop_seq [OF r1] sess.simps r2)
  have three: "download_loop (map Rx (frame 1 ?A) @ map Rx (frame 2 ?B) @
           map Rx ([X_SOH, 2, 0xFF - 2] @ ?Z @ [0, 1])) ?s0 = Inr ?s3"
    by (simp only: download_loop_seq [OF r1] download_loop_seq [OF r2] sess.simps r3)
  have four: "download_loop (map Rx (frame 1 ?A) @ map Rx (frame 2 ?B) @
           map Rx ([X_SOH, 2, 0xFF - 2] @ ?Z @ [0, 1]) @ map Rx (frame 2 ?B)) ?s0 = Inr ?s4"
    by (simp only: download_loop_seq [OF r1] download_loop_seq [OF r2] download_loop_seq [OF r3]
          sess.simps r4)
  from two three four show ?thesis by (simp add: xmod_download_def)
qed

section \<open>The cursor past the end of the buffer\<close>

lemma raw_frame_split:
  "map Rx (raw_frame n p h l) @ es =
     Rx X_SOH # Rx n # Rx (0xFF - n) # (map Rx p @ (Rx h # Rx l # es))"
  by (simp add: raw_frame_def)

lemma raw_frame_overrun:
  assumes "state s = TRANS_AWAIT" "length p = 128" "n \<noteq> last_succeeded_block s"
    and "unat (mempos s) \<le> length (buffer s)" "length (buffer s) < unat (mempos s) + 128"
    and "length (buffer s) < 65536"
  shows "download_loop (map Rx (raw_frame n p h l) @ es) s = Inl (OutOfBounds (length (buffer s)))"
proof -
  let ?s3 = "s\<lparr>counter := 0, current_crc := 0, blocknum := n, state := TRANS_RUN\<rparr>"
  have hdr: "download_loop (Rx X_SOH # Rx n # Rx (0xFF - n) # rest) s = download_loop rest ?s3"
    for rest
    using assms(1,3) by (simp add: body_SOH body_BLOCK body_BLOCK2)
  have "download_loop (map Rx p @ (Rx h # Rx l # es)) ?s3 =
      Inl (OutOfBounds (length (buffer ?s3)))"
    using assms by (intro run_payload_overrun) simp_all
  then show ?thesis by (simp only: raw_frame_split hdr) simp
qed

lemma raw_frame_underflow:
  assumes "state s = TRANS_AWAIT" "p \<noteq> []" "n = last_succeeded_block s"
    and "unat (mempos s) < 128" "length (buffer s) \<le> 65408"
  shows "download_loop (map Rx (raw_frame n p h l) @ es) s =
     Inl (OutOfBounds (unat (mempos s) + 65408))"
proof -
  obtain b p' where p: "p = b # p'" using assms(2) by (cases p) auto
  let ?s3 = "s\<lparr>counter := 0, current_crc := 0, blocknum := n, mempos := mempos s - 128,
               state := TRANS_RUN\<rparr>"
  have hdr: "download_loop (Rx X_SOH # Rx n # Rx (0xFF - n) # rest) s = download_loop rest ?s3"
    for rest
    using assms(1,3) by (simp add: body_SOH body_BLOCK body_BLOCK2)
  have cur: "unat (mempos s - 128) = unat (mempos s) + 65408"
    using assms(4) by (simp add: rewind_wraps)
  have "handlebyte b ?s3 = Inl (OutOfBounds (unat (mempos ?s3)))"
    using assms(5) cur by (intro handlebyte_RUN_fault) simp_all
  then have "download_loop (Rx b # rest) ?s3 = Inl (OutOfBounds (unat (mempos s) + 65408))" for rest
    using cur by (simp add: download_body_def)
  then show ?thesis by (simp only: raw_frame_split hdr p list.map append_Cons)
qed

lemma raw_frame_step:
  assumes "state s = TRANS_AWAIT" "length p = 128"
    and "slot = (if n = last_succeeded_block s then mempos s - 128 else mempos s)"
    and "unat slot + 128 \<le> length (buffer s)" "length (buffer s) < 65536"
  shows "\<exists>s'. download_loop (map Rx (raw_frame n p h l)) s = Inr s' \<and>
     state s' = TRANS_AWAIT \<and> length (buffer s') = length (buffer s) \<and>
     mempos s' = (if crc_matches p h l then slot + 128 else slot) \<and>
     last_succeeded_block s' = (if crc_matches p h l then n else last_succeeded_block s)"
  unfolding raw_frame_def crc_matches_def
  using assms(2,4) by (subst receive_block [OF assms]) simp


lemma raw_frames_overrun:
  assumes "state s = TRANS_AWAIT" "no_corrupted_duplicate (last_succeeded_block s) fs"
    and "unat (mempos s) \<le> length (buffer s)"
    and "(length (buffer s) - unat (mempos s)) div 128 < new_blocks (last_succeeded_block s) fs"
    and "length (buffer s) \<le> 65408"
  shows "\<exists>i. length (buffer s) \<le> i \<and>
     download_loop (map Rx (raw_wire fs) @ es) s = Inl (OutOfBounds i)"
  using assms
proof (induction fs arbitrary: s)
  case Nil
  then show ?case by simp
next
  case (Cons f fs)
  obtain n p h l where f: "f = (n, p, h, l)" by (cases f)
  let ?c = "unat (mempos s)"
  let ?rest = "map Rx (raw_wire fs) @ es"
  from Cons.prems(2) f have len: "length p = 128"
    and dup: "n \<noteq> last_succeeded_block s \<or> crc_matches p h l"
    and ncd: "no_corrupted_duplicate (if crc_matches p h l then n else last_succeeded_block s) fs"
    by simp_all
  have w: "map Rx (raw_wire (f # fs)) @ es = map Rx (raw_frame n p h l) @ ?rest"
    using f by simp
  have cap: "length (buffer s) < 65536" using Cons.prems(5) by simp
  have fits: ?case
    if slot: "slot = (if n = last_succeeded_block s then mempos s - 128 else mempos s)"
      and inb: "unat slot + 128 \<le> length (buffer s)"
      and after: "unat (if crc_matches p h l then slot + 128 else slot) \<le> length (buffer s)"
      and cnt: "(length (buffer s) - unat (if crc_matches p h l then slot + 128 else slot)) div 128
          < new_blocks (if crc_matches p h l then n else last_succeeded_block s) fs"
    for slot
  proof -
    from raw_frame_step [OF Cons.prems(1) len slot inb cap, of h l] obtain s' where
      run: "download_loop (map Rx (raw_frame n p h l)) s = Inr s'" and st: "state s' = TRANS_AWAIT"
      and bl: "length (buffer s') = length (buffer s)"
      and mp: "mempos s' = (if crc_matches p h l then slot + 128 else slot)"
      and ls: "last_succeeded_block s' = (if crc_matches p h l then n else last_succeeded_block s)"
      by blast
    have "\<exists>i. length (buffer s') \<le> i \<and> download_loop ?rest s' = Inl (OutOfBounds i)"
      using st ncd after cnt Cons.prems(5) by (intro Cons.IH) (simp_all only: bl mp ls)
    moreover have "download_loop (map Rx (raw_frame n p h l) @ ?rest) s = download_loop ?rest s'"
      using run st by (rule download_loop_seq)
    ultimately show ?thesis unfolding w bl by simp
  qed
  show ?case
  proof (cases "n = last_succeeded_block s")
    case new: False
    show ?thesis
    proof (cases "?c + 128 \<le> length (buffer s)")
      case False
      then have "download_loop (map Rx (raw_frame n p h l) @ ?rest) s =
          Inl (OutOfBounds (length (buffer s)))"
        using Cons.prems(1,3) len new cap by (intro raw_frame_overrun) simp_all
      then show ?thesis unfolding w by simp
    next
      case True
      have adv: "unat (mempos s + 128) = ?c + 128"
        using True cap by (simp add: unat_word_ariths)
      show ?thesis
      proof (rule fits [of "mempos s"])
        show "mempos s = (if n = last_succeeded_block s then mempos s - 128 else mempos s)"
          using new by simp
        show "unat (mempos s) + 128 \<le> length (buffer s)" by (rule True)
        show "unat (if crc_matches p h l then mempos s + 128 else mempos s) \<le> length (buffer s)"
          using True adv by simp
        show "(length (buffer s) - unat (if crc_matches p h l then mempos s + 128 else mempos s)) div 128
          < new_blocks (if crc_matches p h l then n else last_succeeded_block s) fs"
          using Cons.prems(4) f new True adv by (auto split: if_splits)
      qed
    qed
  next
    case same: True
    with dup have ok: "crc_matches p h l" by simp
    show ?thesis
    proof (cases "?c < 128")
      case True
      have "p \<noteq> []" using len by auto
      then have "download_loop (map Rx (raw_frame n p h l) @ ?rest) s =
          Inl (OutOfBounds (?c + 65408))"
        using Cons.prems(1,5) same True by (intro raw_frame_underflow) simp_all
      then show ?thesis unfolding w using Cons.prems(5) by simp
    next
      case False
      then have rwd: "unat (mempos s - 128) = ?c - 128" by (intro rewind_in_range) simp
      show ?thesis
      proof (rule fits [of "mempos s - 128"])
        show "mempos s - 128 = (if n = last_succeeded_block s then mempos s - 128 else mempos s)"
          using same by simp
        show "unat (mempos s - 128) + 128 \<le> length (buffer s)"
          using rwd False Cons.prems(3) by simp
        show "unat (if crc_matches p h l then mempos s - 128 + 128 else mempos s - 128)
            \<le> length (buffer s)"
          using ok Cons.prems(3) by simp
        show "(length (buffer s) - unat (if crc_matches p h l then mempos s - 128 + 128 else mempos s - 128)) div 128
          < new_blocks (if crc_matches p h l then n else last_succeeded_block s) fs"
          using Cons.prems(4) f same ok by simp
      qed
    qed
  qed
qed

text \<open>
  C10, as amended. The receive path neither bounds nor wraps the write cursor: each
  payload byte is stored at \<^verbatim>\<open>buffer[mempos++]\<close>. For every download made of frames with
  128 payload bytes, none of them a corrupted copy of the block committed last, that
  delivers more new blocks than \<^verbatim>\<open>XMOD_BUFFSIZE\<close> divided by 128 (with \<^verbatim>\<open>XMOD_BUFFSIZE\<close> at
  most 65408), a payload byte is stored at an index greater than or equal to
  \<^verbatim>\<open>XMOD_BUFFSIZE\<close>, outside the buffer.
\<close>

theorem cursor_runs_past_buffer:
  assumes "no_corrupted_duplicate 0 fs" "XMOD_BUFFSIZE s div 128 < new_blocks 0 fs"
    and "XMOD_BUFFSIZE s \<le> 65408"
  shows "\<exists>i. XMOD_BUFFSIZE s \<le> i \<and>
     xmod_download (map Rx (raw_wire fs) @ es) s = Inl (OutOfBounds i)"
proof -
  have "\<exists>i. length (buffer (download_init s)) \<le> i \<and>
      download_loop (map Rx (raw_wire fs) @ es) (download_init s) = Inl (OutOfBounds i)"
    using assms
    by (intro raw_frames_overrun) (simp_all add: download_init_def uart_putc_def XMOD_BUFFSIZE_def)
  then show ?thesis
    by (simp add: xmod_download_def XMOD_BUFFSIZE_def download_init_def uart_putc_def)
qed


theorem cursor_runs_past_buffer_witness:
  "no_corrupted_duplicate 0
     [(1, replicate 128 0, 0, 0), (2, replicate 128 0, 0, 1), (2, replicate 128 0, 0, 0),
      (2, replicate 128 0, 0, 0), (3, replicate 128 0, 0, 0)] \<and>
   XMOD_BUFFSIZE (power_on (replicate 256 0)) div 128
     < new_blocks 0
         [(1, replicate 128 0, 0, 0), (2, replicate 128 0, 0, 1), (2, replicate 128 0, 0, 0),
          (2, replicate 128 0, 0, 0), (3, replicate 128 0, 0, 0)] \<and>
   XMOD_BUFFSIZE (power_on (replicate 256 0)) \<le> 65408 \<and>
   (\<exists>i. XMOD_BUFFSIZE (power_on (replicate 256 0)) \<le> i \<and>
        xmod_download
          (map Rx (raw_wire
             [(1, replicate 128 0, 0, 0), (2, replicate 128 0, 0, 1), (2, replicate 128 0, 0, 0),
              (2, replicate 128 0, 0, 0), (3, replicate 128 0, 0, 0)]) @ [])
          (power_on (replicate 256 0)) = Inl (OutOfBounds i))"
proof -
  have m: "crc_matches (replicate 128 0) 0 0" "\<not> crc_matches (replicate 128 0) 0 1"
    by (simp_all add: crc_matches_def crc16_zeros)
  have a: "no_corrupted_duplicate 0
     [(1, replicate 128 0, 0, 0), (2, replicate 128 0, 0, 1), (2, replicate 128 0, 0, 0),
      (2, replicate 128 0, 0, 0), (3, replicate 128 0, 0, 0)]"
    by (simp add: m)
  have b: "XMOD_BUFFSIZE (power_on (replicate 256 0)) div 128
     < new_blocks 0
         [(1, replicate 128 0, 0, 0), (2, replicate 128 0, 0, 1), (2, replicate 128 0, 0, 0),
          (2, replicate 128 0, 0, 0), (3, replicate 128 0, 0, 0)]"
    by (simp add: m XMOD_BUFFSIZE_def power_on_def)
  have c: "XMOD_BUFFSIZE (power_on (replicate 256 0)) \<le> 65408"
    by (simp add: XMOD_BUFFSIZE_def power_on_def)
  from cursor_runs_past_buffer [OF a b c, of "[]"] a b c show ?thesis by blast
qed

text \<open>
  C10 as stated fails for a transfer with a corrupted copy of the block committed last,
  which the receiver rewinds twice. Into 256 bytes, blocks 1 and 2, a corrupted copy of
  block 2 and block 3 are received: three blocks are committed, block 3 over block 2,
  and no byte is stored outside the buffer.
\<close>

theorem three_blocks_committed_in_two_slots:
  "xmod_download
     (map Rx (frame 1 (replicate 128 0xAA) @ frame 2 (replicate 128 0xBB) @
              ([X_SOH, 2, 0xFD] @ replicate 128 0 @ [0, 1]) @
              frame 3 (replicate 128 0xCC)))
     (power_on (replicate 256 0)) =
   Inr \<lparr>state = TRANS_AWAIT, retrycount = 0, counter = 128,
        current_crc = crc16 (replicate 128 0xCC), crc_recv = crc16 (replicate 128 0xCC),
        mempos = 256, blocknum = 3, last_succeeded_block = 3,
        buffer = replicate 128 0xAA @ replicate 128 0xCC,
        uart_tx = [0x43, X_ACK, X_ACK, X_NAK, X_ACK]\<rparr>"
proof -
  let ?A = "replicate 128 (0xAA :: u8)" and ?B = "replicate 128 (0xBB :: u8)"
  let ?C = "replicate 128 (0xCC :: u8)" and ?Z = "replicate 128 (0 :: u8)"
  let ?s0 = "download_init (power_on (replicate 256 0))"
  let ?s1 = "\<lparr>state = TRANS_AWAIT, retrycount = 0, counter = 128,
        current_crc = crc16 ?A, crc_recv = crc16 ?A,
        mempos = 128, blocknum = 1, last_succeeded_block = 1,
        buffer = ?A @ ?Z, uart_tx = [0x43, X_ACK]\<rparr>"
  let ?s2 = "\<lparr>state = TRANS_AWAIT, retrycount = 0, counter = 128,
        current_crc = crc16 ?B, crc_recv = crc16 ?B,
        mempos = 256, blocknum = 2, last_succeeded_block = 2,
        buffer = ?A @ ?B, uart_tx = [0x43, X_ACK, X_ACK]\<rparr>"
  let ?s3 = "\<lparr>state = TRANS_AWAIT, retrycount = 0, counter = 128,
        current_crc = 0, crc_recv = 1,
        mempos = 128, blocknum = 2, last_succeeded_block = 2,
        buffer = ?A @ ?Z, uart_tx = [0x43, X_ACK, X_ACK, X_NAK]\<rparr>"
  let ?s4 = "\<lparr>state = TRANS_AWAIT, retrycount = 0, counter = 128,
        current_crc = crc16 ?C, crc_recv = crc16 ?C,
        mempos = 256, blocknum = 3, last_succeeded_block = 3,
        buffer = ?A @ ?C, uart_tx = [0x43, X_ACK, X_ACK, X_NAK, X_ACK]\<rparr>"
  have r1: "download_loop (map Rx (frame 1 ?A)) ?s0 = Inr ?s1"
    by (subst receive_frame [where slot = 0])
       (simp_all add: download_init_def power_on_def uart_putc_def)
  have r2: "download_loop (map Rx (frame 2 ?B)) ?s1 = Inr ?s2"
    by (subst receive_frame [where slot = 128]) simp_all
  have r3: "download_loop (map Rx ([X_SOH, 2, 0xFF - 2] @ ?Z @ [0, 1])) ?s2 = Inr ?s3"
    by (subst nak_of_duplicate) (simp_all add: crc16_zeros)
  have r4: "download_loop (map Rx (frame 3 ?C)) ?s3 = Inr ?s4"
    by (subst receive_frame [where slot = 128]) simp_all
  have "download_loop (map Rx (frame 1 ?A) @ map Rx (frame 2 ?B) @
           map Rx ([X_SOH, 2, 0xFF - 2] @ ?Z @ [0, 1]) @ map Rx (frame 3 ?C)) ?s0 = Inr ?s4"
    by (simp only: download_loop_seq [OF r1] download_loop_seq [OF r2] download_loop_seq [OF r3]
          sess.simps r4)
  then show ?thesis by (simp add: xmod_download_def)
qed

end
